theory Spec2Isabelle
  imports Main "HOL-Library.Word"
begin

section \<open>Data model of rangeallocator.cpp\<close>

text \<open>
  \<open>vaddr_t\<close> is \<open>uintptr_t\<close> and lengths are \<open>size_t\<close>: unsigned machine words whose
  arithmetic wraps around. The model fixes the width at 64 bits (an LP64 target).
\<close>

type_synonym vaddr_t = "64 word"
type_synonym size_t = "64 word"

datatype allocation_flags = ALLOCATE_ANY | ALLOCATE_EXACT | ALLOCATE_ABOVE | ALLOCATE_BELOW

text \<open>
  The undefined behaviours the source can run into, made explicit: a division by a zero
  granularity, a write through the null pointer that \<open>span_manager_pool::get\<close> returns
  when its chain is empty, and the write outside the empty vector in the constructor of
  \<open>span_manager_pool\<close>.
\<close>

datatype error = DivisionByZero | NullSpan | PoolOutOfBounds

text \<open>
  \<open>struct span\<close>. The \<open>next\<close> pointer is the position in the list that holds the
  record; \<open>s_node\<close> is the index of the record in the pool's vector, so that the identity
  of a record survives its release and reuse.
\<close>

record span =
  s_node :: nat
  s_base :: vaddr_t
  s_length :: size_t

section \<open>span\_manager\_pool\<close>

text \<open>
  The state of the pool is the chain \<open>_available_spans\<close>, as the list of the indices of
  the records on it. The constructor links record \<open>i\<close> to record \<open>i + 1\<close> and starts the
  chain at record 0. With \<open>max_instances = 0\<close> the loop bound \<open>max_instances - 1\<close> wraps
  around and the first iteration writes outside the empty vector. Memory is taken to
  be unbounded: the vector always gets its \<open>max_instances\<close> records.
\<close>

definition span_manager_pool :: "size_t \<Rightarrow> error + nat list" where
  "span_manager_pool max_instances =
     (if max_instances = 0 then Inl PoolOutOfBounds else Inr [0..<unat max_instances])"

definition get :: "nat list \<Rightarrow> (nat \<times> nat list) option" where
  "get available_spans =
     (case available_spans of [] \<Rightarrow> None | s # rest \<Rightarrow> Some (s, rest))"

definition release :: "nat list \<Rightarrow> nat \<Rightarrow> nat list" where
  "release available_spans s = s # available_spans"

section \<open>range\_allocator\<close>

text \<open>
  \<open>free_mem_root\<close> is the chain that starts at \<open>_free_mem_root.next\<close>, in list order;
  \<open>spans\<close> is the chain of the pool \<open>_spans\<close>.
\<close>

record range_allocator =
  r_base :: vaddr_t
  r_length :: size_t
  r_granularity :: size_t
  free_mem_root :: "span list"
  spans :: "nat list"

text \<open>The two roundings the source writes inline.\<close>

definition align_down :: "size_t \<Rightarrow> vaddr_t \<Rightarrow> vaddr_t" where
  "align_down granularity base = (base div granularity) * granularity"

definition align_up :: "size_t \<Rightarrow> size_t \<Rightarrow> size_t" where
  "align_up granularity len = ((len + granularity - 1) div granularity) * granularity"

definition add_span :: "nat list \<Rightarrow> (nat \<times> nat list) option" where
  "add_span pool = get pool"

text \<open>The constructor of \<open>range_allocator\<close>.\<close>

definition range_allocator_init ::
  "vaddr_t \<Rightarrow> size_t \<Rightarrow> size_t \<Rightarrow> error + range_allocator" where
  "range_allocator_init base len granularity =
     (if granularity = 0 then Inl DivisionByZero
      else case span_manager_pool ((len div granularity) div 2) of
        Inl e \<Rightarrow> Inl e
      | Inr pool \<Rightarrow>
          (case add_span pool of
             None \<Rightarrow> Inl NullSpan
           | Some (s, pool') \<Rightarrow>
               Inr \<lparr>r_base = base,
                    r_length = (len div granularity) * granularity,
                    r_granularity = granularity,
                    free_mem_root =
                      [\<lparr>s_node = s, s_base = base,
                        s_length = (len div granularity) * granularity\<rparr>],
                    spans = pool'\<rparr>))"

text \<open>\<open>create_range_allocator\<close>: \<open>None\<close> is the null handle.\<close>

definition create_range_allocator ::
  "vaddr_t \<Rightarrow> size_t \<Rightarrow> size_t \<Rightarrow> error + range_allocator option" where
  "create_range_allocator base len granularity =
     (if base = 0 then Inr None
      else if len = 0 then Inr None
      else if granularity = 0 then Inr None
      else if granularity > len then Inr None
      else case range_allocator_init base len granularity of
        Inl e \<Rightarrow> Inl e
      | Inr a \<Rightarrow> Inr (Some a))"

subsection \<open>allocate\<close>

fun check_span :: "span \<Rightarrow> size_t \<Rightarrow> allocation_flags \<Rightarrow> vaddr_t \<Rightarrow> bool" where
  "check_span s len ALLOCATE_ANY hint = (s_length s \<ge> len)"
| "check_span s len ALLOCATE_EXACT hint =
     (s_base s \<le> hint \<and> hint + len \<le> s_base s + s_length s)"
| "check_span s len ALLOCATE_ABOVE hint =
     (if s_base s \<ge> hint then s_length s \<ge> len
      else if s_base s + s_length s \<ge> hint then s_base s + s_length s \<ge> hint + len
      else False)"
| "check_span s len ALLOCATE_BELOW hint =
     (s_base s + len \<le> hint \<and> s_length s \<ge> len)"

text \<open>
  The functions that take \<open>(prev, curr)\<close> rewrite the chain from \<open>curr\<close> on: they
  take \<open>curr\<close> (written \<open>cur\<close>) and the chain \<open>rest\<close> behind it and return the chain
  that \<open>prev->next\<close> points to afterwards, with the pool.
\<close>

definition remove_span :: "span \<Rightarrow> span list \<Rightarrow> nat list \<Rightarrow> span list \<times> nat list" where
  "remove_span cur rest pool = (rest, release pool (s_node cur))"

definition trunc_span_low ::
  "span \<Rightarrow> span list \<Rightarrow> size_t \<Rightarrow> nat list \<Rightarrow> error + span list \<times> nat list" where
  "trunc_span_low cur rest len pool =
     (if len = s_length cur then Inr (remove_span cur rest pool)
      else Inr (cur\<lparr>s_base := s_base cur + len, s_length := s_length cur - len\<rparr> # rest,
                pool))"

definition trunc_span_high ::
  "span \<Rightarrow> span list \<Rightarrow> size_t \<Rightarrow> nat list \<Rightarrow> error + span list \<times> nat list" where
  "trunc_span_high cur rest len pool =
     (if len = s_length cur then Inr (remove_span cur rest pool)
      else Inr (cur\<lparr>s_length := s_length cur - len\<rparr> # rest, pool))"

definition trunc_span_middle ::
  "span \<Rightarrow> span list \<Rightarrow> vaddr_t \<Rightarrow> size_t \<Rightarrow> nat list \<Rightarrow> error + span list \<times> nat list" where
  "trunc_span_middle cur rest base len pool =
     (if len = s_length cur then Inr (remove_span cur rest pool)
      else case add_span pool of
        None \<Rightarrow> Inl NullSpan
      | Some (s, pool') \<Rightarrow>
          Inr (cur\<lparr>s_length := base - s_base cur\<rparr>
                 # \<lparr>s_node = s, s_base = base + len,
                     s_length = s_base cur + s_length cur - (base + len)\<rparr>
                 # rest,
               pool'))"

fun split_span ::
  "span \<Rightarrow> span list \<Rightarrow> size_t \<Rightarrow> allocation_flags \<Rightarrow> vaddr_t \<Rightarrow> nat list
     \<Rightarrow> error + vaddr_t \<times> span list \<times> nat list" where
  "split_span cur rest len ALLOCATE_ANY hint pool =
     map_sum id (Pair (s_base cur)) (trunc_span_low cur rest len pool)"
| "split_span cur rest len ALLOCATE_EXACT hint pool =
     map_sum id (Pair hint)
       (if s_base cur = hint then trunc_span_low cur rest len pool
        else if hint + len = s_base cur + s_length cur then trunc_span_high cur rest len pool
        else trunc_span_middle cur rest hint len pool)"
| "split_span cur rest len ALLOCATE_ABOVE hint pool =
     map_sum id (Pair (s_base cur + s_length cur - len)) (trunc_span_high cur rest len pool)"
| "split_span cur rest len ALLOCATE_BELOW hint pool =
     map_sum id (Pair (s_base cur)) (trunc_span_low cur rest len pool)"

text \<open>
  The search loop of \<open>allocate\<close>: the spans passed over (the last of them is \<open>previous\<close>)
  and the chain from \<open>current\<close> on, empty when \<open>current\<close> ends up null.
\<close>

fun find_span ::
  "span list \<Rightarrow> size_t \<Rightarrow> allocation_flags \<Rightarrow> vaddr_t \<Rightarrow> span list \<times> span list" where
  "find_span [] len flags hint = ([], [])"
| "find_span (current # rest) len flags hint =
     (if check_span current len flags hint then ([], current # rest)
      else case find_span rest len flags hint of
        (passed, found) \<Rightarrow> (current # passed, found))"

definition allocate ::
  "range_allocator \<Rightarrow> size_t \<Rightarrow> allocation_flags \<Rightarrow> vaddr_t
     \<Rightarrow> error + vaddr_t \<times> range_allocator" where
  "allocate a len0 flags hint =
     (if r_granularity a = 0 then Inl DivisionByZero
      else let len = align_up (r_granularity a) len0 in
        if len = 0 then Inr (- 1, a)
        else if len > r_length a then Inr (- 1, a)
        else case find_span (free_mem_root a) len flags hint of
          (passed, []) \<Rightarrow> Inr (- 1, a)
        | (passed, current # rest) \<Rightarrow>
            (case split_span current rest len flags hint (spans a) of
               Inl e \<Rightarrow> Inl e
             | Inr (base, chain, pool) \<Rightarrow>
                 Inr (base, a\<lparr>free_mem_root := passed @ chain, spans := pool\<rparr>)))"

subsection \<open>free\<close>

text \<open>
  The scan of \<open>free\<close> over the chain from \<open>next\<close> on. It returns the chain that
  \<open>curr->next\<close> points to afterwards, with the pool.
\<close>

fun free_scan ::
  "vaddr_t \<Rightarrow> size_t \<Rightarrow> span list \<Rightarrow> nat list \<Rightarrow> error + span list \<times> nat list" where
  "free_scan base len [] pool =
     (case add_span pool of
        None \<Rightarrow> Inl NullSpan
      | Some (s, pool') \<Rightarrow> Inr ([\<lparr>s_node = s, s_base = base, s_length = len\<rparr>], pool'))"
| "free_scan base len (next # rest) pool =
     (if base + len < s_base next then
        (case add_span pool of
           None \<Rightarrow> Inl NullSpan
         | Some (s, pool') \<Rightarrow>
             Inr (\<lparr>s_node = s, s_base = base, s_length = len\<rparr> # next # rest, pool'))
      else if base + len = s_base next then
        Inr (next\<lparr>s_base := base, s_length := s_length next + len\<rparr> # rest, pool)
      else if base < s_base next + s_length next then
        Inr (next # rest, pool)
      else if base = s_base next + s_length next then
        (case rest of
           [] \<Rightarrow> Inr (next\<lparr>s_length := s_length next + len\<rparr> # rest, pool)
         | next_next # rest' \<Rightarrow>
             if base + len > s_base next_next then Inr (next # rest, pool)
             else if base + len = s_base next_next then
               (case remove_span next_next rest' pool of
                  (chain, pool') \<Rightarrow>
                    Inr (next\<lparr>s_length := s_length next + (len + s_length next_next)\<rparr> # chain,
                         pool'))
             else Inr (next\<lparr>s_length := s_length next + len\<rparr> # rest, pool))
      else
        (case free_scan base len rest pool of
           Inl e \<Rightarrow> Inl e
         | Inr (chain, pool') \<Rightarrow> Inr (next # chain, pool')))"

definition free :: "range_allocator \<Rightarrow> vaddr_t \<Rightarrow> size_t \<Rightarrow> error + range_allocator" where
  "free a base0 len0 =
     (if r_granularity a = 0 then Inl DivisionByZero
      else let base = align_down (r_granularity a) base0;
               len = align_up (r_granularity a) len0 in
        if len = 0 then Inr a
        else if base < r_base a \<or> base \<ge> r_base a + r_length a then Inr a
        else if base + len > r_base a + r_length a then Inr a
        else case free_scan base len (free_mem_root a) (spans a) of
          Inl e \<Rightarrow> Inl e
        | Inr (chain, pool) \<Rightarrow> Inr (a\<lparr>free_mem_root := chain, spans := pool\<rparr>))"

section \<open>Sequences of calls\<close>

datatype call = Allocate size_t allocation_flags vaddr_t | Free vaddr_t size_t

fun step :: "range_allocator \<Rightarrow> call \<Rightarrow> error + range_allocator" where
  "step a (Allocate len flags hint) = map_sum id snd (allocate a len flags hint)"
| "step a (Free base len) = free a base len"

fun run :: "range_allocator \<Rightarrow> call list \<Rightarrow> error + range_allocator" where
  "run a [] = Inr a"
| "run a (c # cs) = (case step a c of Inl e \<Rightarrow> Inl e | Inr a' \<Rightarrow> run a' cs)"

section \<open>Vocabulary of the properties\<close>

text \<open>
  Addresses are compared as numbers: \<open>span_end\<close> is the end of a span, not wrapped
  around.
\<close>

definition span_end :: "span \<Rightarrow> nat" where
  "span_end s = unat (s_base s) + unat (s_length s)"

text \<open>
  \<open>gapped lo hi ss\<close>: the spans lie in \<open>[lo, hi]\<close> in list order, each of positive
  length, each starting beyond the end of the one before it.
\<close>

fun gapped :: "nat \<Rightarrow> nat \<Rightarrow> span list \<Rightarrow> bool" where
  "gapped lo hi [] = True"
| "gapped lo hi (s # ss) =
     (lo \<le> unat (s_base s) \<and> 0 < unat (s_length s) \<and> span_end s \<le> hi
      \<and> gapped (Suc (span_end s)) hi ss)"

definition range_end :: "range_allocator \<Rightarrow> nat" where
  "range_end a = unat (r_base a) + unat (r_length a)"

text \<open>
  The invariant of the allocator: a granularity, a range whose end is an address, and a
  free list that is \<open>gapped\<close> within the range.
\<close>

definition list_inv :: "range_allocator \<Rightarrow> bool" where
  "list_inv a =
     (r_granularity a \<noteq> 0 \<and> range_end a < 2 ^ 64
      \<and> gapped (unat (r_base a)) (range_end a) (free_mem_root a))"

definition strictly_ordered :: "span list \<Rightarrow> bool" where
  "strictly_ordered ss = sorted_wrt (\<lambda>s t. s_base s < s_base t) ss"

definition no_overlap :: "span list \<Rightarrow> bool" where
  "no_overlap ss =
     sorted_wrt (\<lambda>s t. span_end s \<le> unat (s_base t) \<or> span_end t \<le> unat (s_base s)) ss"

definition no_adjacent :: "span list \<Rightarrow> bool" where
  "no_adjacent ss = successively (\<lambda>s t. s_base s + s_length s \<noteq> s_base t) ss"

definition in_range :: "range_allocator \<Rightarrow> span list \<Rightarrow> bool" where
  "in_range a ss =
     list_all (\<lambda>s. unat (r_base a) \<le> unat (s_base s) \<and> span_end s \<le> range_end a) ss"

text \<open>The arguments of a call at which no sum that the call computes wraps around.\<close>

fun no_wrap :: "size_t \<Rightarrow> call \<Rightarrow> bool" where
  "no_wrap g (Allocate len flags hint) =
     (flags = ALLOCATE_ANY \<or> flags = ALLOCATE_BELOW
      \<or> unat hint + unat (align_up g len) < 2 ^ 64)"
| "no_wrap g (Free base len) = (unat (align_down g base) + unat (align_up g len) < 2 ^ 64)"

fun hint_aligned :: "size_t \<Rightarrow> call \<Rightarrow> bool" where
  "hint_aligned g (Allocate len flags hint) =
     (flags = ALLOCATE_EXACT \<and> unat g dvd unat hint \<or> flags = ALLOCATE_ANY
      \<or> flags = ALLOCATE_ABOVE \<or> flags = ALLOCATE_BELOW)"
| "hint_aligned g (Free base len) = True"

definition aligned_spans :: "size_t \<Rightarrow> span list \<Rightarrow> bool" where
  "aligned_spans g ss =
     list_all (\<lambda>s. unat g dvd unat (s_base s) \<and> unat g dvd unat (s_length s)
                    \<and> 0 < unat (s_length s)) ss"

definition was_free :: "span list \<Rightarrow> vaddr_t \<Rightarrow> size_t \<Rightarrow> bool" where
  "was_free ss base len =
     list_ex (\<lambda>s. unat (s_base s) \<le> unat base \<and> unat base + unat len \<le> span_end s) ss"

definition overlaps_free :: "span list \<Rightarrow> vaddr_t \<Rightarrow> size_t \<Rightarrow> bool" where
  "overlaps_free ss base len =
     list_ex (\<lambda>s. unat base < span_end s \<and> unat (s_base s) < unat base + unat len) ss"

definition contained :: "range_allocator \<Rightarrow> vaddr_t \<Rightarrow> size_t \<Rightarrow> bool" where
  "contained a base len =
     (unat (r_base a) \<le> unat base \<and> unat base + unat len \<le> range_end a)"

text \<open>The number of free bytes: the lengths of the spans of a free list, added up.\<close>

definition free_total :: "span list \<Rightarrow> nat" where
  "free_total ss = sum_list (map (\<lambda>s. unat (s_length s)) ss)"

section \<open>Example states\<close>

text \<open>
  The allocator of the test driver, \<open>create_range_allocator(0x1000, 4096, 64)\<close>, and
  the same allocator after \<open>allocate_range(ra, 64, ALLOCATE_ANY, 0)\<close>.
\<close>

definition example_allocator :: range_allocator where
  "example_allocator =
     \<lparr>r_base = 0x1000, r_length = 4096, r_granularity = 64,
      free_mem_root = [\<lparr>s_node = 0, s_base = 0x1000, s_length = 4096\<rparr>],
      spans = [1..<32]\<rparr>"

definition example_after_any :: range_allocator where
  "example_after_any =
     \<lparr>r_base = 0x1000, r_length = 4096, r_granularity = 64,
      free_mem_root = [\<lparr>s_node = 0, s_base = 0x1040, s_length = 4032\<rparr>],
      spans = [1..<32]\<rparr>"

text \<open>A range of three granules, \<open>create_range_allocator(0x1000, 192, 64)\<close>.\<close>

definition three_granules :: range_allocator where
  "three_granules =
     \<lparr>r_base = 0x1000, r_length = 192, r_granularity = 64,
      free_mem_root = [\<lparr>s_node = 0, s_base = 0x1000, s_length = 192\<rparr>],
      spans = []\<rparr>"

text \<open>The example allocator after \<open>allocate_range(ra, 64, ALLOCATE_EXACT, 0x1800)\<close>.\<close>

definition example_after_exact :: range_allocator where
  "example_after_exact =
     \<lparr>r_base = 0x1000, r_length = 4096, r_granularity = 64,
      free_mem_root = [\<lparr>s_node = 0, s_base = 0x1000, s_length = 2048\<rparr>,
                       \<lparr>s_node = 1, s_base = 0x1840, s_length = 1984\<rparr>],
      spans = [2..<32]\<rparr>"

text \<open>
  The example allocator after \<open>allocate_range(ra, 64, ALLOCATE_EXACT, 0xFFFFFFFFFFFFFFC0)\<close>,
  where \<open>hint + length\<close> wraps around to 0.
\<close>

definition example_after_wrap :: range_allocator where
  "example_after_wrap =
     \<lparr>r_base = 0x1000, r_length = 4096, r_granularity = 64,
      free_mem_root = [\<lparr>s_node = 0, s_base = 0x1000, s_length = 0xFFFFFFFFFFFFEFC0\<rparr>,
                       \<lparr>s_node = 1, s_base = 0, s_length = 0x2000\<rparr>],
      spans = [2..<32]\<rparr>"

text \<open>The example allocator after \<open>allocate_range(ra, 64, ALLOCATE_ABOVE, 0x1800)\<close>.\<close>

definition example_after_above :: range_allocator where
  "example_after_above =
     \<lparr>r_base = 0x1000, r_length = 4096, r_granularity = 64,
      free_mem_root = [\<lparr>s_node = 0, s_base = 0x1000, s_length = 4032\<rparr>],
      spans = [1..<32]\<rparr>"

text \<open>
  A range that ends at \<open>0xFFFFFFFFFFFFF800\<close>,
  \<open>create_range_allocator(0xFFFFFFFFFFFFF000, 2048, 64)\<close>, and the same allocator after
  \<open>allocate_range(ra, 2048, ALLOCATE_ABOVE, 0xFFFFFFFFFFFFF800)\<close>.
\<close>

definition top_allocator :: range_allocator where
  "top_allocator =
     \<lparr>r_base = 0xFFFFFFFFFFFFF000, r_length = 2048, r_granularity = 64,
      free_mem_root = [\<lparr>s_node = 0, s_base = 0xFFFFFFFFFFFFF000, s_length = 2048\<rparr>],
      spans = [1..<16]\<rparr>"

definition top_after_above :: range_allocator where
  "top_after_above =
     \<lparr>r_base = 0xFFFFFFFFFFFFF000, r_length = 2048, r_granularity = 64,
      free_mem_root = [], spans = [0..<16]\<rparr>"

text \<open>
  A range whose base is not a multiple of the granularity,
  \<open>create_range_allocator(0x1001, 4096, 64)\<close>, and the same allocator after
  \<open>allocate_range(ra, 64, ALLOCATE_ANY, 0)\<close>.
\<close>

definition unaligned_allocator :: range_allocator where
  "unaligned_allocator =
     \<lparr>r_base = 0x1001, r_length = 4096, r_granularity = 64,
      free_mem_root = [\<lparr>s_node = 0, s_base = 0x1001, s_length = 4096\<rparr>],
      spans = [1..<32]\<rparr>"

definition unaligned_after_any :: range_allocator where
  "unaligned_after_any =
     \<lparr>r_base = 0x1001, r_length = 4096, r_granularity = 64,
      free_mem_root = [\<lparr>s_node = 0, s_base = 0x1041, s_length = 4032\<rparr>],
      spans = [1..<32]\<rparr>"

text \<open>
  The example allocator after \<open>allocate_range(ra, 4096, ALLOCATE_ANY, 0)\<close>, and after
  \<open>free_range(ra, 0x1040, 0xFFFFFFFFFFFFFFC0)\<close> on top of that.
\<close>

definition example_all_allocated :: range_allocator where
  "example_all_allocated =
     \<lparr>r_base = 0x1000, r_length = 4096, r_granularity = 64,
      free_mem_root = [], spans = [0..<32]\<rparr>"

definition example_after_free_wrap :: range_allocator where
  "example_after_free_wrap =
     \<lparr>r_base = 0x1000, r_length = 4096, r_granularity = 64,
      free_mem_root = [\<lparr>s_node = 0, s_base = 0x1040, s_length = 0xFFFFFFFFFFFFFFC0\<rparr>],
      spans = [1..<32]\<rparr>"

text \<open>The example allocator after \<open>allocate_range(ra, 64, ALLOCATE_EXACT, 0x1820)\<close>.\<close>

definition example_after_unaligned_exact :: range_allocator where
  "example_after_unaligned_exact =
     \<lparr>r_base = 0x1000, r_length = 4096, r_granularity = 64,
      free_mem_root = [\<lparr>s_node = 0, s_base = 0x1000, s_length = 0x820\<rparr>,
                       \<lparr>s_node = 1, s_base = 0x1860, s_length = 0x7A0\<rparr>],
      spans = [2..<32]\<rparr>"

text \<open>
  The range that ends at \<open>0xFFFFFFFFFFFFF800\<close> after
  \<open>allocate_range(ra, 1024, ALLOCATE_ANY, 0)\<close>, and after
  \<open>allocate_range(ra, 2048, ALLOCATE_ABOVE, 0xFFFFFFFFFFFFF800)\<close> on top of that.
\<close>

definition top_after_any :: range_allocator where
  "top_after_any =
     \<lparr>r_base = 0xFFFFFFFFFFFFF000, r_length = 2048, r_granularity = 64,
      free_mem_root = [\<lparr>s_node = 0, s_base = 0xFFFFFFFFFFFFF400, s_length = 1024\<rparr>],
      spans = [1..<16]\<rparr>"

definition top_after_any_above :: range_allocator where
  "top_after_any_above =
     \<lparr>r_base = 0xFFFFFFFFFFFFF000, r_length = 2048, r_granularity = 64,
      free_mem_root =
        [\<lparr>s_node = 0, s_base = 0xFFFFFFFFFFFFF400, s_length = 0xFFFFFFFFFFFFFC00\<rparr>],
      spans = [1..<16]\<rparr>"

text \<open>
  A range that reaches beyond \<open>2^64\<close>,
  \<open>create_range_allocator(0xFFFFFFFFFFFFF000, 8192, 64)\<close>, and the same allocator after
  \<open>allocate_range(ra, 4096, ALLOCATE_ANY, 0)\<close>.
\<close>

definition beyond_allocator :: range_allocator where
  "beyond_allocator =
     \<lparr>r_base = 0xFFFFFFFFFFFFF000, r_length = 8192, r_granularity = 64,
      free_mem_root = [\<lparr>s_node = 0, s_base = 0xFFFFFFFFFFFFF000, s_length = 8192\<rparr>],
      spans = [1..<64]\<rparr>"

definition beyond_after_any :: range_allocator where
  "beyond_after_any =
     \<lparr>r_base = 0xFFFFFFFFFFFFF000, r_length = 8192, r_granularity = 64,
      free_mem_root = [\<lparr>s_node = 0, s_base = 0, s_length = 4096\<rparr>],
      spans = [1..<64]\<rparr>"

text \<open>
  A granularity that is not a power of two, \<open>create_range_allocator(3, 12, 3)\<close>, and
  the same allocator after \<open>allocate_range(ra, 3, ALLOCATE_EXACT, 0xFFFFFFFFFFFFFFFF)\<close>.
\<close>

definition thirds_allocator :: range_allocator where
  "thirds_allocator =
     \<lparr>r_base = 3, r_length = 12, r_granularity = 3,
      free_mem_root = [\<lparr>s_node = 0, s_base = 3, s_length = 12\<rparr>],
      spans = [1]\<rparr>"

definition thirds_after_wrap :: range_allocator where
  "thirds_after_wrap =
     \<lparr>r_base = 3, r_length = 12, r_granularity = 3,
      free_mem_root = [\<lparr>s_node = 0, s_base = 3, s_length = 0xFFFFFFFFFFFFFFFC\<rparr>,
                       \<lparr>s_node = 1, s_base = 2, s_length = 13\<rparr>],
      spans = []\<rparr>"

section \<open>Arithmetic of 64-bit words\<close>

lemma unat_add64:
  "unat (a::64 word) + unat b < 2 ^ 64 \<Longrightarrow> unat (a + b) = unat a + unat b"
  using unat_add_lem[of a b] by simp

lemma unat_sub64: "unat (b::64 word) \<le> unat a \<Longrightarrow> unat (a - b) = unat a - unat b"
  by (simp add: unat_sub word_le_nat_alt)

lemma unat_bound64: "unat (a::64 word) < 2 ^ 64"
  using unsigned_less[of a, where 'a=nat] by simp

lemma unat_mult64:
  "unat (a::64 word) * unat b < 2 ^ 64 \<Longrightarrow> unat (a * b) = unat a * unat b"
  using unat_mult_lem[of a b] by simp

lemma unat_div_mult64: "unat ((x::64 word) div g * g) = unat x div unat g * unat g"
proof -
  have "unat x div unat g * unat g \<le> unat x" by simp
  also have "\<dots> < 2 ^ 64" by (rule unat_bound64)
  finally have "unat (x div g) * unat g < 2 ^ 64" by (simp add: unat_div)
  then show ?thesis by (simp add: unat_mult64 unat_div)
qed

lemma unat_align_down: "unat (align_down g b) = unat b div unat g * unat g"
  unfolding align_down_def by (rule unat_div_mult64)

lemma unat_plus_minus_one:
  assumes "(g::64 word) \<noteq> 0"
  shows "unat (l + g - 1) = (unat l + unat g - 1) mod 2 ^ 64"
proof -
  have g: "0 < unat g" using assms by (simp add: unat_gt_0)
  have e: "l + g - 1 = l + (g - 1)" by simp
  have m: "unat (g - 1) = unat g - 1" using assms by (simp add: unat_minus_one)
  have "unat (l + (g - 1)) = (unat l + unat (g - 1)) mod 2 ^ 64"
    using unat_word_ariths(1)[of l "g - 1"] by simp
  then have "unat (l + g - 1) = (unat l + (unat g - 1)) mod 2 ^ 64"
    by (simp only: e m)
  moreover have "unat l + (unat g - 1) = unat l + unat g - 1" using g by simp
  ultimately show ?thesis by simp
qed

lemma unat_align_up:
  "g \<noteq> 0 \<Longrightarrow> unat (align_up g l) = (unat l + unat g - 1) mod 2 ^ 64 div unat g * unat g"
  unfolding align_up_def unat_div_mult64 by (simp add: unat_plus_minus_one)

lemma align_up_dvd: "g \<noteq> 0 \<Longrightarrow> unat g dvd unat (align_up g l)"
  by (simp add: unat_align_up)

lemma align_up_wrap:
  assumes "g \<noteq> 0" "2 ^ 64 \<le> unat l + unat g - 1"
  shows "align_up g l = 0"
proof -
  have "unat l < 2 ^ 64" by (rule unat_bound64)
  then have "unat l + unat g - 1 - 2 ^ 64 < unat g" using assms(2) by linarith
  moreover have "unat l + unat g - 1 < 2 * 2 ^ 64"
    using unat_bound64[of l] unat_bound64[of g] by linarith
  ultimately have "(unat l + unat g - 1) mod 2 ^ 64 < unat g"
    using assms(2) by (simp add: mod_if)
  then have "unat (align_up g l) = 0" using assms(1) by (simp add: unat_align_up)
  then show ?thesis by (simp add: unat_eq_zero)
qed

lemma align_up_ge:
  assumes "g \<noteq> 0" "unat l + unat g - 1 < 2 ^ 64"
  shows "unat l \<le> unat (align_up g l)"
proof -
  have g: "0 < unat g" using assms(1) by (simp add: unat_gt_0)
  define x where "x = unat l + unat g - 1"
  have "x mod unat g < unat g" using g by simp
  then have "x - (unat g - 1) \<le> x - x mod unat g" by linarith
  moreover have "x div unat g * unat g = x - x mod unat g"
    by (simp add: minus_mod_eq_div_mult)
  moreover have "x - (unat g - 1) = unat l" using g by (simp add: x_def)
  ultimately have "unat l \<le> x div unat g * unat g" by simp
  then show ?thesis using assms by (simp add: unat_align_up x_def)
qed

lemma align_up_less:
  assumes "g \<noteq> 0" "unat l + unat g - 1 < 2 ^ 64"
  shows "unat (align_up g l) < unat l + unat g"
proof -
  have g: "0 < unat g" using assms(1) by (simp add: unat_gt_0)
  define x where "x = unat l + unat g - 1"
  have "x div unat g * unat g \<le> x" by simp
  moreover have "x < unat l + unat g" using g by (simp add: x_def)
  ultimately have "x div unat g * unat g < unat l + unat g" by linarith
  then show ?thesis using assms by (simp add: unat_align_up x_def)
qed

lemma allocate_rejects:
  assumes g: "r_granularity a \<noteq> 0"
    and r: "align_up (r_granularity a) len = 0 \<or> align_up (r_granularity a) len > r_length a
            \<or> len > r_length a"
  shows "allocate a len flags hint = Inr (- 1, a)"
proof (cases "align_up (r_granularity a) len = 0 \<or> align_up (r_granularity a) len > r_length a")
  case True
  then show ?thesis using g by (auto simp: allocate_def Let_def)
next
  case False
  then have big: "len > r_length a" and nz: "align_up (r_granularity a) len \<noteq> 0"
    using r by auto
  have "unat len + unat (r_granularity a) - 1 < 2 ^ 64"
    using align_up_wrap[OF g, of len] nz by fastforce
  then have "unat len \<le> unat (align_up (r_granularity a) len)"
    by (rule align_up_ge[OF g])
  then have "align_up (r_granularity a) len > r_length a"
    using big by (simp add: word_less_nat_alt)
  with False show ?thesis by simp
qed

section \<open>The invariant of the free list\<close>

lemmas w2n = word_le_nat_alt word_less_nat_alt unat_add64 unat_sub64

lemma gapped_mono: "gapped lo hi ss \<Longrightarrow> lo' \<le> lo \<Longrightarrow> gapped lo' hi ss"
  by (cases ss) auto

lemma neq64: "(a::64 word) \<noteq> b \<longleftrightarrow> unat a \<noteq> unat b"
  by (simp add: word_unat_eq_iff)

lemma trunc_span_low_gapped:
  assumes "hi < 2 ^ 64" "gapped lo hi (cur # rest)"
    "unat l \<le> unat (s_length cur)" "0 < unat l"
    "trunc_span_low cur rest l pool = Inr (chain, pool')"
  shows "gapped lo hi chain"
  using assms
  by (auto simp: trunc_span_low_def remove_span_def w2n neq64 span_end_def
      split: if_splits elim: gapped_mono)

lemma trunc_span_high_gapped:
  assumes "hi < 2 ^ 64" "gapped lo hi (cur # rest)"
    "unat l \<le> unat (s_length cur)" "0 < unat l"
    "trunc_span_high cur rest l pool = Inr (chain, pool')"
  shows "gapped lo hi chain"
proof (cases "l = s_length cur")
  case True
  then show ?thesis using assms
    by (auto simp: trunc_span_high_def remove_span_def span_end_def elim: gapped_mono)
next
  case False
  then have c: "chain = cur\<lparr>s_length := s_length cur - l\<rparr> # rest"
    using assms(5) by (simp add: trunc_span_high_def)
  have u: "unat (s_length cur - l) = unat (s_length cur) - unat l"
    using assms(3) by (rule unat_sub64)
  have lt: "unat l < unat (s_length cur)"
    using False assms(3) by (simp add: neq64)
  have "gapped (Suc (unat (s_base cur) + (unat (s_length cur) - unat l))) hi rest"
    using assms(2) by (auto simp: span_end_def elim: gapped_mono)
  then show ?thesis using assms(2) lt by (simp add: c u span_end_def; arith)
qed

lemma trunc_span_middle_gapped:
  assumes "hi < 2 ^ 64" "gapped lo hi (cur # rest)"
    "unat (s_base cur) < unat h" "unat h + unat l < span_end cur" "0 < unat l"
    "trunc_span_middle cur rest h l pool = Inr (chain, pool')"
  shows "gapped lo hi chain"
  using assms
  by (auto simp: trunc_span_middle_def remove_span_def w2n neq64 span_end_def
      split: if_splits option.splits elim: gapped_mono)


lemma map_sum_Pair_Inr [simp]:
  "map_sum id (Pair x) r = Inr (addr, res) \<longleftrightarrow> r = Inr res \<and> addr = x"
  by (cases r) auto

lemma map_sum_Pair_Inl [simp]:
  "map_sum id (Pair x) r = Inl e \<longleftrightarrow> r = Inl e"
  by (cases r) auto

lemma split_span_gapped:
  assumes hi: "hi < 2 ^ 64"
    and g: "gapped lo hi (cur # rest)"
    and chk: "check_span cur l fl h"
    and nz: "l \<noteq> 0"
    and nw: "fl = ALLOCATE_ANY \<or> fl = ALLOCATE_BELOW \<or> unat h + unat l < 2 ^ 64"
    and res: "split_span cur rest l fl h pool = Inr (addr, chain, pool')"
  shows "gapped lo hi chain"
proof -
  from g have e: "unat (s_base cur) + unat (s_length cur) \<le> hi"
    by (simp add: span_end_def)
  have nz': "0 < unat l" using nz by (simp add: unat_gt_0)
  show ?thesis
  proof (cases fl)
    case ALLOCATE_ANY
    then have "unat l \<le> unat (s_length cur)"
      and "trunc_span_low cur rest l pool = Inr (chain, pool')"
      using chk res by (simp_all add: w2n)
    then show ?thesis by (rule trunc_span_low_gapped[OF hi g _ nz'])
  next
    case ALLOCATE_BELOW
    then have "unat l \<le> unat (s_length cur)"
      and "trunc_span_low cur rest l pool = Inr (chain, pool')"
      using chk res by (simp_all add: w2n)
    then show ?thesis by (rule trunc_span_low_gapped[OF hi g _ nz'])
  next
    case ALLOCATE_ABOVE
    then have "unat l \<le> unat (s_length cur)" using chk e hi nw
      by (auto simp: w2n split: if_splits)
    moreover have "trunc_span_high cur rest l pool = Inr (chain, pool')"
      using ALLOCATE_ABOVE res by simp
    ultimately show ?thesis by (rule trunc_span_high_gapped[OF hi g _ nz'])
  next
    case ALLOCATE_EXACT
    then have c: "unat (s_base cur) \<le> unat h" "unat h + unat l \<le> span_end cur"
      using chk e hi nw by (auto simp: w2n span_end_def)
    then have le: "unat l \<le> unat (s_length cur)" by (simp add: span_end_def)
    show ?thesis
    proof (cases "s_base cur = h")
      case True
      then have "trunc_span_low cur rest l pool = Inr (chain, pool')"
        using ALLOCATE_EXACT res by simp
      then show ?thesis by (rule trunc_span_low_gapped[OF hi g le nz'])
    next
      case nb: False
      show ?thesis
      proof (cases "h + l = s_base cur + s_length cur")
        case True
        then have "trunc_span_high cur rest l pool = Inr (chain, pool')"
          using ALLOCATE_EXACT res nb by simp
        then show ?thesis by (rule trunc_span_high_gapped[OF hi g le nz'])
      next
        case False
        then have "unat h + unat l \<noteq> span_end cur" using e hi nw ALLOCATE_EXACT
          by (auto simp: neq64 w2n span_end_def)
        then have "unat h + unat l < span_end cur" using c by simp
        moreover have "unat (s_base cur) < unat h" using nb c by (simp add: neq64)
        moreover have "trunc_span_middle cur rest h l pool = Inr (chain, pool')"
          using ALLOCATE_EXACT res nb False by simp
        ultimately show ?thesis
          using trunc_span_middle_gapped[OF hi g _ _ nz'] by blast
      qed
    qed
  qed
qed

lemma find_span_append: "find_span ss l fl h = (passed, found) \<Longrightarrow> ss = passed @ found"
  by (induction ss arbitrary: passed) (auto split: if_splits prod.splits)

lemma find_span_check: "find_span ss l fl h = (passed, cur # rest) \<Longrightarrow> check_span cur l fl h"
  by (induction ss arbitrary: passed) (auto split: if_splits prod.splits)

lemma gapped_replace:
  "gapped lo hi (xs @ ys) \<Longrightarrow> (\<And>lo'. gapped lo' hi ys \<Longrightarrow> gapped lo' hi zs)
     \<Longrightarrow> gapped lo hi (xs @ zs)"
  by (induction xs arbitrary: lo) auto

lemma allocate_list_inv:
  assumes inv: "list_inv a"
    and nw: "no_wrap (r_granularity a) (Allocate len fl h)"
    and res: "allocate a len fl h = Inr (addr, a')"
  shows "list_inv a'"
proof -
  define l where "l = align_up (r_granularity a) len"
  have hi: "range_end a < 2 ^ 64" and g: "r_granularity a \<noteq> 0"
    and gp: "gapped (unat (r_base a)) (range_end a) (free_mem_root a)"
    using inv by (simp_all add: list_inv_def)
  show ?thesis
  proof (cases "l = 0 \<or> l > r_length a")
    case True
    then have "a' = a" using res g
      by (auto simp: allocate_def Let_def l_def split: if_splits)
    then show ?thesis using inv by simp
  next
    case False
    obtain passed found where f: "find_span (free_mem_root a) l fl h = (passed, found)"
      by (cases "find_span (free_mem_root a) l fl h")
    show ?thesis
    proof (cases found)
      case Nil
      then have "a' = a" using res g f False by (auto simp: allocate_def Let_def l_def)
      then show ?thesis using inv by simp
    next
      case (Cons cur rest)
      from res g f False Cons obtain chain pool where
        s: "split_span cur rest l fl h (spans a) = Inr (addr, chain, pool)"
        and a': "a' = a\<lparr>free_mem_root := passed @ chain, spans := pool\<rparr>"
        by (auto simp: allocate_def Let_def l_def split: sum.splits)
      have chk: "check_span cur l fl h" using f Cons by (auto dest: find_span_check)
      have app: "free_mem_root a = passed @ cur # rest"
        using f Cons by (auto dest: find_span_append)
      have nw': "fl = ALLOCATE_ANY \<or> fl = ALLOCATE_BELOW \<or> unat h + unat l < 2 ^ 64"
        using nw by (simp add: l_def)
      have "gapped (unat (r_base a)) (range_end a) (passed @ chain)"
      proof (rule gapped_replace)
        show "gapped (unat (r_base a)) (range_end a) (passed @ cur # rest)"
          using gp app by simp
      next
        fix lo' assume "gapped lo' (range_end a) (cur # rest)"
        then show "gapped lo' (range_end a) chain"
          using split_span_gapped[OF hi _ chk _ nw' s] False by blast
      qed
      then show ?thesis using g hi by (simp add: list_inv_def a' range_end_def)
    qed
  qed
qed

lemma free_scan_gapped:
  assumes "hi < 2 ^ 64"
  shows "gapped lo hi ss \<Longrightarrow> lo \<le> unat b \<Longrightarrow> 0 < unat l \<Longrightarrow> unat b + unat l \<le> hi
    \<Longrightarrow> free_scan b l ss pool = Inr (chain, pool') \<Longrightarrow> gapped lo hi chain"
proof (induction ss arbitrary: lo chain)
  case Nil
  then show ?case by (auto simp: span_end_def split: option.splits)
next
  case (Cons nxt rest)
  have e: "span_end nxt \<le> hi" "lo \<le> unat (s_base nxt)" "0 < unat (s_length nxt)"
    and r: "gapped (Suc (span_end nxt)) hi rest"
    using Cons.prems(1) by simp_all
  have ue: "unat (s_base nxt + s_length nxt) = span_end nxt"
    using e assms by (simp add: span_end_def unat_add64)
  have ub: "unat (b + l) = unat b + unat l"
    using Cons.prems(4) assms by (simp add: unat_add64)
  consider (before) "unat b + unat l < unat (s_base nxt)"
    | (touch) "unat b + unat l = unat (s_base nxt)"
    | (overlap) "unat (s_base nxt) < unat b + unat l" "unat b < span_end nxt"
    | (after) "unat b = span_end nxt"
    | (beyond) "span_end nxt < unat b"
    by linarith
  then show ?case
  proof cases
    case before
    then show ?thesis using Cons.prems e r
      by (auto simp: w2n ub span_end_def split: option.splits)
  next
    case touch
    then have c: "chain = nxt\<lparr>s_base := b, s_length := s_length nxt + l\<rparr> # rest"
      using Cons.prems(5) by (simp add: w2n neq64 word_unat_eq_iff ub)
    have u: "unat (s_length nxt + l) = unat (s_length nxt) + unat l"
      using e assms touch by (simp add: unat_add64 span_end_def)
    then have "span_end (nxt\<lparr>s_base := b, s_length := s_length nxt + l\<rparr>) = span_end nxt"
      using touch by (simp add: span_end_def)
    then show ?thesis using Cons.prems(2,3) e r
      by (simp add: c u)
  next
    case overlap
    then have "chain = nxt # rest" using Cons.prems(5)
      by (simp add: w2n word_unat_eq_iff ub ue)
    then show ?thesis using Cons.prems(1) by simp
  next
    case after
    have n: "\<not> unat b + unat l < unat (s_base nxt)" "unat b + unat l \<noteq> unat (s_base nxt)"
      using after e Cons.prems(3) by (simp_all add: span_end_def)
    show ?thesis
    proof (cases rest)
      case Nil
      then have c: "chain = [nxt\<lparr>s_length := s_length nxt + l\<rparr>]"
        using Cons.prems(5) n after by (simp add: w2n word_unat_eq_iff ub ue)
      have u: "unat (s_length nxt + l) = unat (s_length nxt) + unat l"
        using e assms after Cons.prems(4) by (simp add: unat_add64 span_end_def)
      have se: "span_end (nxt\<lparr>s_length := s_length nxt + l\<rparr>) = unat b + unat l"
        using after by (simp add: u span_end_def)
      show ?thesis using Cons.prems(4) e by (simp add: c u se)
    next
      case (Cons nn rest')
      have nn: "span_end nn \<le> hi" "Suc (span_end nxt) \<le> unat (s_base nn)"
        "0 < unat (s_length nn)"
        and r': "gapped (Suc (span_end nn)) hi rest'"
        using r Cons by simp_all
      consider (x) "unat (s_base nn) < unat b + unat l"
        | (y) "unat b + unat l = unat (s_base nn)"
        | (z) "unat b + unat l < unat (s_base nn)" by linarith
      then show ?thesis
      proof cases
        case x
        then have "chain = nxt # rest" using Cons.prems(5) n after Cons
          by (simp add: w2n word_unat_eq_iff ub ue)
        then show ?thesis using Cons.prems(1) by simp
      next
        case y
        then have c: "chain = nxt\<lparr>s_length := s_length nxt + (l + s_length nn)\<rparr> # rest'"
          using \<open>free_scan b l (nxt # rest) pool = Inr (chain, pool')\<close> n after Cons
          by (simp add: w2n word_unat_eq_iff ub ue remove_span_def)
        have "unat (l + s_length nn) = unat l + unat (s_length nn)"
          using nn assms y by (simp add: unat_add64 span_end_def)
        moreover have "unat (s_length nxt + (l + s_length nn))
                       = unat (s_length nxt) + (unat l + unat (s_length nn))"
          using nn assms y after calculation by (simp add: unat_add64 span_end_def)
        ultimately have u: "unat (s_length nxt + (l + s_length nn))
                       = unat (s_length nxt) + (unat l + unat (s_length nn))" by simp
        have "span_end (nxt\<lparr>s_length := s_length nxt + (l + s_length nn)\<rparr>) = span_end nn"
          using after y by (simp add: u span_end_def)
        then show ?thesis using e nn r'
          by (simp add: c u)
      next
        case z
        then have c: "chain = nxt\<lparr>s_length := s_length nxt + l\<rparr> # rest"
          using \<open>free_scan b l (nxt # rest) pool = Inr (chain, pool')\<close> n after Cons
          by (simp add: w2n word_unat_eq_iff ub ue)
        have u: "unat (s_length nxt + l) = unat (s_length nxt) + unat l"
          using e assms after z nn by (simp add: unat_add64 span_end_def)
        have se: "span_end (nxt\<lparr>s_length := s_length nxt + l\<rparr>) = unat b + unat l"
          using after by (simp add: u span_end_def)
        have "gapped (Suc (unat b + unat l)) hi rest"
          using nn r' z Cons by simp
        then show ?thesis using e \<open>unat b + unat l \<le> hi\<close>
          by (simp add: c u se)
      qed
    qed
  next
    case beyond
    then obtain chain' where
      s: "free_scan b l rest pool = Inr (chain', pool')" and c: "chain = nxt # chain'"
      using Cons.prems(5) e Cons.prems(3)
      by (auto simp: w2n word_unat_eq_iff ub ue span_end_def split: sum.splits)
    have "gapped (Suc (span_end nxt)) hi chain'"
      using Cons.IH[OF r _ Cons.prems(3,4) s] beyond by simp
    then show ?thesis using e by (simp add: c)
  qed
qed

lemma allocate_config:
  "allocate a len flags hint = Inr (addr, a') \<Longrightarrow>
     r_base a' = r_base a \<and> r_length a' = r_length a \<and> r_granularity a' = r_granularity a"
  by (auto simp: allocate_def Let_def split: if_splits prod.splits list.splits sum.splits)

lemma free_config:
  "free a base len = Inr a' \<Longrightarrow>
     r_base a' = r_base a \<and> r_length a' = r_length a \<and> r_granularity a' = r_granularity a"
  by (auto simp: free_def Let_def split: if_splits prod.splits sum.splits)

lemma step_config:
  "step a c = Inr a' \<Longrightarrow>
     r_base a' = r_base a \<and> r_length a' = r_length a \<and> r_granularity a' = r_granularity a"
proof (cases c)
  case (Allocate len flags hint)
  assume "step a c = Inr a'"
  then obtain addr where "allocate a len flags hint = Inr (addr, a')"
    using Allocate by (cases "allocate a len flags hint") auto
  then show ?thesis by (rule allocate_config)
next
  case (Free base len)
  assume "step a c = Inr a'"
  then show ?thesis using Free by (auto dest: free_config)
qed

lemma free_list_inv:
  assumes inv: "list_inv a"
    and nw: "no_wrap (r_granularity a) (Free base len)"
    and res: "free a base len = Inr a'"
  shows "list_inv a'"
proof -
  define b where "b = align_down (r_granularity a) base"
  define l where "l = align_up (r_granularity a) len"
  have hi: "range_end a < 2 ^ 64" and g: "r_granularity a \<noteq> 0"
    and gp: "gapped (unat (r_base a)) (range_end a) (free_mem_root a)"
    using inv by (simp_all add: list_inv_def)
  have nw': "unat b + unat l < 2 ^ 64" using nw by (simp add: b_def l_def)
  have ue: "unat (r_base a + r_length a) = range_end a"
    using hi by (simp add: range_end_def unat_add64)
  have ub: "unat (b + l) = unat b + unat l" using nw' by (simp add: unat_add64)
  show ?thesis
  proof (cases "l = 0 \<or> b < r_base a \<or> b \<ge> r_base a + r_length a \<or> b + l > r_base a + r_length a")
    case True
    then have "a' = a" using res g
      by (auto simp: free_def Let_def l_def b_def split: if_splits)
    then show ?thesis using inv by simp
  next
    case False
    then obtain chain pool where
      s: "free_scan b l (free_mem_root a) (spans a) = Inr (chain, pool)"
      and a': "a' = a\<lparr>free_mem_root := chain, spans := pool\<rparr>"
      using res g by (auto simp: free_def Let_def l_def b_def split: if_splits sum.splits)
    from False have "unat (r_base a) \<le> unat b" "0 < unat l" "unat b + unat l \<le> range_end a"
      by (simp_all add: w2n ue ub unat_gt_0 not_less not_le)
    then have "gapped (unat (r_base a)) (range_end a) chain"
      using free_scan_gapped[OF hi gp _ _ _ s] by blast
    then show ?thesis using g hi by (simp add: list_inv_def a' range_end_def)
  qed
qed

lemma step_list_inv:
  "list_inv a \<Longrightarrow> no_wrap (r_granularity a) c \<Longrightarrow> step a c = Inr a' \<Longrightarrow> list_inv a'"
proof (cases c)
  case (Allocate len flags hint)
  assume a: "list_inv a" "no_wrap (r_granularity a) c" "step a c = Inr a'"
  then obtain addr where "allocate a len flags hint = Inr (addr, a')"
    using Allocate by (cases "allocate a len flags hint") auto
  then show ?thesis using a Allocate allocate_list_inv by blast
next
  case (Free base len)
  assume "list_inv a" "no_wrap (r_granularity a) c" "step a c = Inr a'"
  then show ?thesis using Free free_list_inv by auto
qed

lemma run_list_inv:
  "list_inv a \<Longrightarrow> list_all (no_wrap (r_granularity a)) cs \<Longrightarrow> run a cs = Inr a'
     \<Longrightarrow> list_inv a' \<and> r_base a' = r_base a \<and> r_length a' = r_length a
         \<and> r_granularity a' = r_granularity a"
proof (induction cs arbitrary: a)
  case Nil
  then show ?case by simp
next
  case (Cons c cs)
  then obtain a1 where s: "step a c = Inr a1" and r: "run a1 cs = Inr a'"
    by (auto split: sum.splits)
  have i: "list_inv a1" using Cons.prems s by (auto intro: step_list_inv)
  have c: "r_base a1 = r_base a \<and> r_length a1 = r_length a \<and> r_granularity a1 = r_granularity a"
    using s by (rule step_config)
  then have "list_all (no_wrap (r_granularity a1)) cs" using Cons.prems by simp
  then show ?case using Cons.IH[OF i _ r] c by simp
qed

lemma create_fields:
  assumes "create_range_allocator base len g = Inr (Some a)"
  shows "base \<noteq> 0" "g \<noteq> 0" "g \<le> len"
    "r_base a = base" "r_length a = len div g * g" "r_granularity a = g"
    "\<exists>s. free_mem_root a = [\<lparr>s_node = s, s_base = base, s_length = len div g * g\<rparr>]"
  using assms
  by (auto simp: create_range_allocator_def range_allocator_init_def
      split: if_splits sum.splits option.splits)

lemma effective_length_pos:
  assumes "(g::64 word) \<noteq> 0" "g \<le> len"
  shows "0 < unat (len div g * g)"
proof -
  have "0 < unat g" using assms(1) by (simp add: unat_gt_0)
  moreover have "unat g \<le> unat len" using assms(2) by (simp add: word_le_nat_alt)
  ultimately have "0 < unat len div unat g" by (simp add: div_greater_zero_iff)
  then show ?thesis using \<open>0 < unat g\<close> by (simp add: unat_div_mult64)
qed

lemma create_list_inv:
  assumes c: "create_range_allocator base len g = Inr (Some a)"
    and e: "range_end a < 2 ^ 64"
  shows "list_inv a"
proof -
  note f = create_fields[OF c]
  obtain s where s: "free_mem_root a = [\<lparr>s_node = s, s_base = base, s_length = len div g * g\<rparr>]"
    using f(7) by blast
  have "0 < unat (len div g * g)" using f(2,3) by (rule effective_length_pos)
  then show ?thesis using e f(2,4,5,6)
    by (simp add: list_inv_def s span_end_def range_end_def)
qed

lemma gapped_bounds:
  "gapped lo hi ss \<Longrightarrow> s \<in> set ss \<Longrightarrow> lo \<le> unat (s_base s) \<and> span_end s \<le> hi"
proof (induction ss arbitrary: lo)
  case Nil
  then show ?case by simp
next
  case (Cons x xs)
  show ?case
  proof (cases "s = x")
    case True
    then show ?thesis using Cons.prems by simp
  next
    case False
    then have "s \<in> set xs" and "gapped (Suc (span_end x)) hi xs"
      using Cons.prems by simp_all
    then have "Suc (span_end x) \<le> unat (s_base s) \<and> span_end s \<le> hi"
      using Cons.IH by blast
    then show ?thesis using Cons.prems(1) by (simp add: span_end_def)
  qed
qed

lemma gapped_after:
  "gapped lo hi (s # ss) \<Longrightarrow> t \<in> set ss \<Longrightarrow> span_end s < unat (s_base t)"
  using gapped_bounds[of "Suc (span_end s)" hi ss t] by simp

lemma gapped_strictly_ordered: "gapped lo hi ss \<Longrightarrow> strictly_ordered ss"
  unfolding strictly_ordered_def
proof (induction ss arbitrary: lo)
  case Nil
  then show ?case by simp
next
  case (Cons s ss)
  have "\<forall>t\<in>set ss. s_base s < s_base t"
  proof
    fix t assume "t \<in> set ss"
    then have "span_end s < unat (s_base t)" by (rule gapped_after[OF Cons.prems])
    then show "s_base s < s_base t" by (simp add: word_less_nat_alt span_end_def)
  qed
  then show ?case using Cons by auto
qed

lemma gapped_no_overlap: "gapped lo hi ss \<Longrightarrow> no_overlap ss"
  unfolding no_overlap_def
proof (induction ss arbitrary: lo)
  case Nil
  then show ?case by simp
next
  case (Cons s ss)
  have "\<forall>t\<in>set ss. span_end s \<le> unat (s_base t)"
    using gapped_after[OF Cons.prems] by (auto simp: less_imp_le)
  then show ?case using Cons by auto
qed

lemma gapped_no_adjacent: "hi < 2 ^ 64 \<Longrightarrow> gapped lo hi ss \<Longrightarrow> no_adjacent ss"
  unfolding no_adjacent_def
proof (induction ss arbitrary: lo)
  case Nil
  then show ?case by simp
next
  case (Cons s ss)
  show ?case
  proof (cases ss)
    case Nil
    then show ?thesis by simp
  next
    case (Cons t ts)
    have "span_end s < unat (s_base t)" using gapped_after[OF Cons.prems(2)] Cons by simp
    moreover have "unat (s_base s + s_length s) = span_end s"
      using Cons.prems by (simp add: span_end_def unat_add64)
    ultimately have "s_base s + s_length s \<noteq> s_base t" by (auto simp: word_unat_eq_iff)
    then show ?thesis using Cons.IH Cons.prems Cons by auto
  qed
qed

lemma gapped_in_range:
  "gapped (unat (r_base a)) (range_end a) ss \<Longrightarrow> in_range a ss"
  unfolding in_range_def list_all_iff using gapped_bounds by blast

section \<open>What allocate hands out\<close>

lemma split_span_addr:
  "split_span cur rest l fl h pool = Inr (addr, chain, pool') \<Longrightarrow>
     addr = (case fl of ALLOCATE_ANY \<Rightarrow> s_base cur | ALLOCATE_EXACT \<Rightarrow> h
             | ALLOCATE_ABOVE \<Rightarrow> s_base cur + s_length cur - l
             | ALLOCATE_BELOW \<Rightarrow> s_base cur)"
  by (cases fl) auto

text \<open>What a call of allocate that finds a span does.\<close>

lemma allocate_found:
  assumes "list_inv a" "allocate a len fl h = Inr (addr, a')" "addr \<noteq> - 1"
  shows "\<exists>passed cur rest chain pool.
           free_mem_root a = passed @ cur # rest
           \<and> check_span cur (align_up (r_granularity a) len) fl h
           \<and> split_span cur rest (align_up (r_granularity a) len) fl h (spans a)
               = Inr (addr, chain, pool)
           \<and> a' = a\<lparr>free_mem_root := passed @ chain, spans := pool\<rparr>
           \<and> align_up (r_granularity a) len \<noteq> 0
           \<and> align_up (r_granularity a) len \<le> r_length a"
proof -
  define l where "l = align_up (r_granularity a) len"
  have g: "r_granularity a \<noteq> 0" using assms(1) by (simp add: list_inv_def)
  have ok: "l \<noteq> 0" "\<not> l > r_length a"
    using assms(2,3) g by (auto simp: allocate_def Let_def l_def split: if_splits)
  obtain passed found where f: "find_span (free_mem_root a) l fl h = (passed, found)"
    by (cases "find_span (free_mem_root a) l fl h")
  then obtain cur rest where c: "found = cur # rest"
    using assms(2,3) g ok by (cases found) (auto simp: allocate_def Let_def l_def)
  from assms(2) g f ok c obtain chain pool where
    s: "split_span cur rest l fl h (spans a) = Inr (addr, chain, pool)"
    and a': "a' = a\<lparr>free_mem_root := passed @ chain, spans := pool\<rparr>"
    by (auto simp: allocate_def Let_def l_def split: sum.splits)
  have "check_span cur l fl h" using f c by (auto dest: find_span_check)
  moreover have "free_mem_root a = passed @ cur # rest"
    using f c by (auto dest: find_span_append)
  ultimately show ?thesis using s a' ok unfolding l_def
    by (intro exI[of _ passed] exI[of _ cur] exI[of _ rest] exI[of _ chain] exI[of _ pool])
       (simp add: not_less)
qed

text \<open>The block that a successful search hands out lies inside the span it was found in.\<close>

lemma split_span_range:
  assumes e: "span_end cur < 2 ^ 64"
    and chk: "check_span cur l fl h"
    and nw: "fl = ALLOCATE_ANY \<or> fl = ALLOCATE_BELOW \<or> unat h + unat l < 2 ^ 64"
    and s: "split_span cur rest l fl h pool = Inr (addr, chain, pool')"
  shows "unat (s_base cur) \<le> unat addr \<and> unat addr + unat l \<le> span_end cur"
proof -
  have ue: "unat (s_base cur + s_length cur) = span_end cur"
    using e by (simp add: span_end_def unat_add64)
  note ad = split_span_addr[OF s]
  show ?thesis
  proof (cases fl)
    case ALLOCATE_ANY
    then show ?thesis using ad chk by (simp add: span_end_def w2n)
  next
    case ALLOCATE_BELOW
    then show ?thesis using ad chk by (simp add: span_end_def w2n)
  next
    case ALLOCATE_EXACT
    then have "unat (h + l) = unat h + unat l" using nw by (simp add: unat_add64)
    then show ?thesis using ALLOCATE_EXACT ad chk by (simp add: word_le_nat_alt ue)
  next
    case ALLOCATE_ABOVE
    then have uh: "unat (h + l) = unat h + unat l" using nw by (simp add: unat_add64)
    have le: "unat l \<le> unat (s_length cur)"
      using chk ALLOCATE_ABOVE e
      by (auto simp: word_le_nat_alt word_less_nat_alt ue uh span_end_def split: if_splits)
    then have "unat (s_base cur + s_length cur - l) = span_end cur - unat l"
      by (simp add: unat_sub64 ue span_end_def)
    then show ?thesis using ALLOCATE_ABOVE ad le by (simp add: span_end_def)
  qed
qed

section \<open>The scan of free\<close>

lemma gapped_append_tail: "gapped lo hi (xs @ ys) \<Longrightarrow> gapped lo hi ys"
proof (induction xs arbitrary: lo)
  case Nil
  then show ?case by simp
next
  case (Cons x xs)
  then have "gapped (Suc (span_end x)) hi ys" by simp
  then show ?case using Cons.prems by (auto simp: span_end_def elim: gapped_mono)
qed

lemma gapped_append_before:
  "gapped lo hi (xs @ y # ys) \<Longrightarrow> p \<in> set xs \<Longrightarrow> span_end p < unat (s_base y)"
proof (induction xs arbitrary: lo)
  case Nil
  then show ?case by simp
next
  case (Cons x xs)
  show ?case
  proof (cases "p = x")
    case True
    then show ?thesis using gapped_after[of lo hi x "xs @ y # ys" y] Cons.prems by simp
  next
    case False
    then show ?thesis using Cons by auto
  qed
qed

lemma free_scan_step:
  assumes "span_end p < unat b" "span_end p < 2 ^ 64" "unat b + unat l < 2 ^ 64"
  shows "free_scan b l (p # rest) pool =
           (case free_scan b l rest pool of
              Inl e \<Rightarrow> Inl e
            | Inr (chain, pool') \<Rightarrow> Inr (p # chain, pool'))"
proof -
  have ue: "unat (s_base p + s_length p) = span_end p"
    using assms(2) by (simp add: span_end_def unat_add64)
  have ub: "unat (b + l) = unat b + unat l" using assms(3) by (simp add: unat_add64)
  have "unat (s_base p) \<le> span_end p" by (simp add: span_end_def)
  then have "\<not> b + l < s_base p" "b + l \<noteq> s_base p"
    "\<not> b < s_base p + s_length p" "b \<noteq> s_base p + s_length p"
    using assms(1) by (simp_all add: word_less_nat_alt word_unat_eq_iff ue ub)
  then show ?thesis by simp
qed

lemma free_scan_skip:
  assumes "hi < 2 ^ 64" "unat b + unat l < 2 ^ 64"
  shows "gapped lo hi (pre @ ys) \<Longrightarrow> \<forall>p\<in>set pre. span_end p < unat b \<Longrightarrow>
    free_scan b l (pre @ ys) pool =
      (case free_scan b l ys pool of
         Inl e \<Rightarrow> Inl e
       | Inr (chain, pool') \<Rightarrow> Inr (pre @ chain, pool'))"
proof (induction pre arbitrary: lo)
  case Nil
  then show ?case by (simp split: sum.splits)
next
  case (Cons p pre)
  have "span_end p < 2 ^ 64" using Cons.prems(1) assms(1) by simp
  then have "free_scan b l (p # pre @ ys) pool =
           (case free_scan b l (pre @ ys) pool of
              Inl e \<Rightarrow> Inl e
            | Inr (chain, pool') \<Rightarrow> Inr (p # chain, pool'))"
    using Cons.prems(2) assms(2) by (intro free_scan_step) simp_all
  moreover have "free_scan b l (pre @ ys) pool =
      (case free_scan b l ys pool of
         Inl e \<Rightarrow> Inl e
       | Inr (chain, pool') \<Rightarrow> Inr (pre @ chain, pool'))"
    using Cons.prems by (intro Cons.IH[of "Suc (span_end p)"]) simp_all
  ultimately show ?case by (simp split: sum.splits)
qed

lemma free_scan_overlap:
  assumes "hi < 2 ^ 64"
  shows "gapped lo hi ss \<Longrightarrow> 0 < unat l \<Longrightarrow> unat b + unat l \<le> hi \<Longrightarrow>
    \<exists>s\<in>set ss. unat b < span_end s \<and> unat (s_base s) < unat b + unat l \<Longrightarrow>
    free_scan b l ss pool = Inr (ss, pool)"
proof (induction ss arbitrary: lo)
  case Nil
  then show ?case by simp
next
  case (Cons nxt rest)
  have e: "span_end nxt \<le> hi" "0 < unat (s_length nxt)"
    and r: "gapped (Suc (span_end nxt)) hi rest"
    using Cons.prems(1) by simp_all
  have ue: "unat (s_base nxt + s_length nxt) = span_end nxt"
    using e assms by (simp add: span_end_def unat_add64)
  have ub: "unat (b + l) = unat b + unat l"
    using Cons.prems(3) assms by (simp add: unat_add64)
  have bn: "unat (s_base nxt) < span_end nxt" using e by (simp add: span_end_def)
  obtain s where s: "s \<in> set (nxt # rest)" "unat b < span_end s"
    "unat (s_base s) < unat b + unat l"
    using Cons.prems(4) by blast
  have later: "s \<noteq> nxt \<Longrightarrow> s \<in> set rest \<and> span_end nxt < unat (s_base s)"
    using s(1) gapped_after[OF Cons.prems(1)] by auto
  have reach: "unat (s_base nxt) < unat b + unat l"
    using s(3) later bn by (cases "s = nxt") auto
  show ?case
  proof (cases "unat b < span_end nxt")
    case True
    then show ?thesis using reach
      by (simp add: word_less_nat_alt word_unat_eq_iff ue ub)
  next
    case False
    then have sn: "s \<noteq> nxt" using s(2) by auto
    then have sr: "s \<in> set rest" "span_end nxt < unat (s_base s)" using later by simp_all
    show ?thesis
    proof (cases "unat b = span_end nxt")
      case True
      obtain nn rest' where rr: "rest = nn # rest'" using sr(1) by (cases rest) auto
      have "unat (s_base nn) \<le> unat (s_base s)"
      proof (cases "s = nn")
        case True
        then show ?thesis by simp
      next
        case False
        then have "s \<in> set rest'" using sr(1) rr by simp
        then have "span_end nn < unat (s_base s)"
          using gapped_after[of "Suc (span_end nxt)" hi nn rest' s] r rr by simp
        then show ?thesis by (simp add: span_end_def)
      qed
      then have "unat (s_base nn) < unat b + unat l" using s(3) by simp
      then show ?thesis using reach True rr
        by (simp add: word_less_nat_alt word_unat_eq_iff ue ub)
    next
      case ne: False
      then have beyond: "span_end nxt < unat b" using False by simp
      have "\<exists>s\<in>set rest. unat b < span_end s \<and> unat (s_base s) < unat b + unat l"
        using s sr by blast
      then have "free_scan b l rest pool = Inr (rest, pool)"
        using Cons.IH[OF r Cons.prems(2,3)] by simp
      moreover have "free_scan b l (nxt # rest) pool =
           (case free_scan b l rest pool of
              Inl e \<Rightarrow> Inl e
            | Inr (chain, pool') \<Rightarrow> Inr (nxt # chain, pool'))"
        using beyond e assms Cons.prems(3) by (intro free_scan_step) simp_all
      ultimately show ?thesis by simp
    qed
  qed
qed

lemma free_scan_three_way:
  assumes hi: "hi < 2 ^ 64"
    and g: "gapped lo hi (n1 # n2 # post)"
    and b: "unat b = span_end n1"
    and e: "unat b + unat l = unat (s_base n2)"
  shows "free_scan b l (n1 # n2 # post) pool =
           Inr (n1\<lparr>s_length := s_length n1 + (l + s_length n2)\<rparr> # post, s_node n2 # pool)"
proof -
  have f: "span_end n1 \<le> hi" "0 < unat (s_length n1)" "span_end n2 \<le> hi"
    "span_end n1 < unat (s_base n2)"
    using g by simp_all
  have ue: "unat (s_base n1 + s_length n1) = span_end n1"
    using f hi by (simp add: span_end_def unat_add64)
  have "unat (s_base n2) \<le> span_end n2" by (simp add: span_end_def)
  then have ub: "unat (b + l) = unat b + unat l"
    using e f hi by (simp add: unat_add64)
  have "unat (s_base n1) < unat b" using b f by (simp add: span_end_def)
  then show ?thesis using b e f
    by (simp add: word_less_nat_alt word_unat_eq_iff ue ub remove_span_def release_def)
qed

lemma free_scan_merge:
  assumes hi: "hi < 2 ^ 64"
    and g: "gapped lo hi (pre @ n1 # n2 # post)"
    and b: "unat b = span_end n1"
    and e: "unat b + unat l = unat (s_base n2)"
  shows "free_scan b l (pre @ n1 # n2 # post) pool =
           Inr (pre @ n1\<lparr>s_length := s_length n1 + (l + s_length n2)\<rparr> # post,
                s_node n2 # pool)"
proof -
  have g': "gapped lo hi (n1 # n2 # post)" using g by (rule gapped_append_tail)
  then have "span_end n2 \<le> hi" by simp
  moreover have "unat (s_base n2) \<le> span_end n2" by (simp add: span_end_def)
  ultimately have nw: "unat b + unat l < 2 ^ 64" using e hi by simp
  have "\<forall>p\<in>set pre. span_end p < unat b"
  proof
    fix p assume "p \<in> set pre"
    then have "span_end p < unat (s_base n1)" by (rule gapped_append_before[OF g])
    then show "span_end p < unat b" using b by (simp add: span_end_def)
  qed
  then show ?thesis
    using free_scan_skip[OF hi nw g, of pool] free_scan_three_way[OF hi g' b e, of pool]
    by simp
qed

lemma span_rebuild [simp]:
  "\<lparr>s_node = s_node (c::span), s_base = s_base c, s_length = s_length c\<rparr> = c"
  by simp

lemma removed_restore:
  assumes hi: "hi < 2 ^ 64" and g: "gapped lo hi (cur # rest)"
  shows "free_scan (s_base cur) (s_length cur) rest (s_node cur # pool) = Inr (cur # rest, pool)"
proof (cases rest)
  case Nil
  then show ?thesis by (simp add: add_span_def get_def)
next
  case (Cons nn rest')
  have "span_end cur < unat (s_base nn)" "span_end cur \<le> hi" using g Cons by simp_all
  then have "unat (s_base cur + s_length cur) < unat (s_base nn)"
    using hi by (simp add: span_end_def unat_add64)
  then show ?thesis using Cons by (simp add: word_less_nat_alt add_span_def get_def)
qed

lemma trunc_span_low_restore:
  assumes hi: "hi < 2 ^ 64" and g: "gapped lo hi (cur # rest)"
    and le: "unat l \<le> unat (s_length cur)" and nz: "0 < unat l"
    and t: "trunc_span_low cur rest l pool = Inr (chain, pool')"
  shows "free_scan (s_base cur) l chain pool' = Inr (cur # rest, pool)"
proof (cases "l = s_length cur")
  case True
  then show ?thesis using t removed_restore[OF hi g, of pool]
    by (simp add: trunc_span_low_def remove_span_def release_def)
next
  case False
  then have c: "chain = cur\<lparr>s_base := s_base cur + l, s_length := s_length cur - l\<rparr> # rest"
    "pool' = pool"
    using t by (simp_all add: trunc_span_low_def)
  have "unat (s_base cur) + unat l < 2 ^ 64" using g hi le by (simp add: span_end_def)
  then have "\<not> s_base cur + l < s_base cur + l" by simp
  then show ?thesis by (simp add: c)
qed

lemma trunc_span_high_restore:
  assumes hi: "hi < 2 ^ 64" and g: "gapped lo hi (cur # rest)"
    and le: "unat l \<le> unat (s_length cur)" and nz: "0 < unat l"
    and t: "trunc_span_high cur rest l pool = Inr (chain, pool')"
  shows "free_scan (s_base cur + s_length cur - l) l chain pool' = Inr (cur # rest, pool)"
proof (cases "l = s_length cur")
  case True
  then show ?thesis using t removed_restore[OF hi g, of pool]
    by (simp add: trunc_span_high_def remove_span_def release_def)
next
  case False
  then have c: "chain = cur\<lparr>s_length := s_length cur - l\<rparr> # rest" "pool' = pool"
    using t by (simp_all add: trunc_span_high_def)
  define b where "b = s_base cur + s_length cur - l"
  have e: "span_end cur \<le> hi" "0 < unat (s_length cur)" using g by simp_all
  have lt: "unat l < unat (s_length cur)" using False le by (simp add: neq64)
  have ue: "unat (s_base cur + s_length cur) = span_end cur"
    using e hi by (simp add: span_end_def unat_add64)
  have ub: "unat b = span_end cur - unat l"
    unfolding b_def using le by (simp add: unat_sub64 ue span_end_def)
  have bl: "b + l = s_base cur + s_length cur" by (simp add: b_def)
  have be: "b = s_base cur + (s_length cur - l)" by (simp add: b_def)
  have n1: "\<not> b + l < s_base cur" "b + l \<noteq> s_base cur"
    using e by (simp_all add: bl word_less_nat_alt word_unat_eq_iff ue span_end_def)
  have n2: "\<not> b < s_base cur + (s_length cur - l)" by (simp add: be)
  have merged: "cur\<lparr>s_length := s_length cur - l + l\<rparr> = cur" by simp
  show ?thesis
  proof (cases rest)
    case Nil
    then show ?thesis using n1 n2 be merged unfolding b_def[symmetric] c by simp
  next
    case (Cons nn rest')
    have "span_end cur < unat (s_base nn)" using g Cons by simp
    then have "\<not> s_base nn < b + l" "b + l \<noteq> s_base nn"
      by (simp_all add: bl word_less_nat_alt word_unat_eq_iff ue)
    then show ?thesis using n1 n2 be merged Cons unfolding b_def[symmetric] c by simp
  qed
qed

lemma trunc_span_middle_restore:
  assumes hi: "hi < 2 ^ 64" and g: "gapped lo hi (cur # rest)"
    and lo: "unat (s_base cur) < unat h" and up: "unat h + unat l < span_end cur"
    and nz: "0 < unat l"
    and t: "trunc_span_middle cur rest h l pool = Inr (chain, pool')"
  shows "free_scan h l chain pool' = Inr (cur # rest, pool)"
proof -
  have e: "span_end cur \<le> hi" using g by simp
  have ne: "l \<noteq> s_length cur" using lo up by (auto simp: span_end_def)
  then obtain s where p: "pool = s # pool'"
    and c: "chain = cur\<lparr>s_length := h - s_base cur\<rparr>
               # \<lparr>s_node = s, s_base = h + l,
                   s_length = s_base cur + s_length cur - (h + l)\<rparr> # rest"
    using t by (auto simp: trunc_span_middle_def add_span_def get_def
        split: option.splits list.splits)
  have uh: "unat (h + l) = unat h + unat l" using up e hi by (simp add: unat_add64)
  have n1: "\<not> h + l < s_base cur" "h + l \<noteq> s_base cur"
    using lo by (simp_all add: word_less_nat_alt word_unat_eq_iff uh)
  have merged: "cur\<lparr>s_length := h - s_base cur + (l + (s_base cur + s_length cur - (h + l)))\<rparr> = cur"
    by simp
  show ?thesis using n1 merged by (simp add: c p remove_span_def release_def)
qed

lemma split_span_restore:assumes hi: "hi < 2 ^ 64"
    and g: "gapped lo hi (cur # rest)"
    and chk: "check_span cur l fl h"
    and nz: "l \<noteq> 0"
    and nw: "fl = ALLOCATE_ANY \<or> fl = ALLOCATE_BELOW \<or> unat h + unat l < 2 ^ 64"
    and res: "split_span cur rest l fl h pool = Inr (addr, chain, pool')"
  shows "free_scan addr l chain pool' = Inr (cur # rest, pool)"
proof -
  have e: "span_end cur < 2 ^ 64" using g hi by simp
  have nz': "0 < unat l" using nz by (simp add: unat_gt_0)
  have rg: "unat (s_base cur) \<le> unat addr" "unat addr + unat l \<le> span_end cur"
    using split_span_range[OF e chk nw res] by simp_all
  then have le: "unat l \<le> unat (s_length cur)" by (simp add: span_end_def)
  note ad = split_span_addr[OF res]
  show ?thesis
  proof (cases fl)
    case ALLOCATE_ANY
    then have "trunc_span_low cur rest l pool = Inr (chain, pool')" "addr = s_base cur"
      using res by simp_all
    then show ?thesis using trunc_span_low_restore[OF hi g le nz'] by simp
  next
    case ALLOCATE_BELOW
    then have "trunc_span_low cur rest l pool = Inr (chain, pool')" "addr = s_base cur"
      using res by simp_all
    then show ?thesis using trunc_span_low_restore[OF hi g le nz'] by simp
  next
    case ALLOCATE_ABOVE
    then have "trunc_span_high cur rest l pool = Inr (chain, pool')"
      "addr = s_base cur + s_length cur - l"
      using res by simp_all
    then show ?thesis using trunc_span_high_restore[OF hi g le nz'] by simp
  next
    case ALLOCATE_EXACT
    then have ah: "addr = h" using ad by simp
    have uh: "unat (h + l) = unat h + unat l" using nw ALLOCATE_EXACT by (simp add: unat_add64)
    have ue: "unat (s_base cur + s_length cur) = span_end cur"
      using e by (simp add: span_end_def unat_add64)
    show ?thesis
    proof (cases "s_base cur = h")
      case True
      then have "trunc_span_low cur rest l pool = Inr (chain, pool')"
        using ALLOCATE_EXACT res by simp
      then show ?thesis using trunc_span_low_restore[OF hi g le nz'] True ah by simp
    next
      case nb: False
      show ?thesis
      proof (cases "h + l = s_base cur + s_length cur")
        case True
        then have "trunc_span_high cur rest l pool = Inr (chain, pool')"
          using ALLOCATE_EXACT res nb by simp
        moreover have "s_base cur + s_length cur - l = h" using True[symmetric] by simp
        ultimately show ?thesis using trunc_span_high_restore[OF hi g le nz'] ah by simp
      next
        case False
        then have "unat h + unat l \<noteq> span_end cur"
          by (simp add: word_unat_eq_iff uh ue)
        then have "unat h + unat l < span_end cur" using rg ah by simp
        moreover have "unat (s_base cur) < unat h" using nb rg ah by (simp add: neq64)
        moreover have "trunc_span_middle cur rest h l pool = Inr (chain, pool')"
          using ALLOCATE_EXACT res nb False by simp
        ultimately show ?thesis
          using trunc_span_middle_restore[OF hi g _ _ nz'] ah by blast
      qed
    qed
  qed
qed

lemma align_down_id:
  assumes "unat g dvd unat b"
  shows "align_down g b = b"
proof -
  have "unat (align_down g b) = unat b" using assms by (simp add: unat_align_down)
  then show ?thesis by (simp add: word_unat_eq_iff)
qed

lemma align_up_id:
  assumes g: "g \<noteq> 0" and d: "unat g dvd unat l" and b: "unat l + unat g \<le> 2 ^ 64"
  shows "align_up g l = l"
proof -
  have g': "0 < unat g" using g by (simp add: unat_gt_0)
  obtain k where k: "unat l = unat g * k" using d by (auto simp: dvd_def)
  have w: "unat l + unat g - 1 < 2 ^ 64" using b g' by simp
  have d0: "(unat g - 1) div unat g = 0" using g' by (intro div_less) simp
  have "(k * unat g + (unat g - 1)) div unat g = k + (unat g - 1) div unat g"
    using g' by (intro div_mult_self3) simp
  then have d: "(k * unat g + (unat g - 1)) div unat g = k" using d0 by simp
  have "unat l + unat g - 1 = k * unat g + (unat g - 1)"
    using k g' by (simp add: mult.commute)
  then have "(unat l + unat g - 1) div unat g * unat g = unat l"
    using d k by (simp add: mult.commute)
  moreover have "unat (align_up g l) = (unat l + unat g - 1) mod 2 ^ 64 div unat g * unat g"
    using g by (rule unat_align_up)
  moreover have "(unat l + unat g - 1) mod 2 ^ 64 = unat l + unat g - 1"
    using w by (rule mod_less)
  ultimately have "unat (align_up g l) = unat l" by simp
  then show ?thesis by (simp add: word_unat_eq_iff)
qed

lemma free_scan_merge_step:
  assumes "s_base n1 < s_base n2" "b = s_base n1 + s_length n1" "b + l = s_base n2"
  shows "free_scan b l (n1 # n2 # post) pool =
           Inr (n1\<lparr>s_length := s_length n1 + (l + s_length n2)\<rparr> # post,
                release pool (s_node n2))"
proof -
  have "\<not> s_base n2 < s_base n1" "s_base n2 \<noteq> s_base n1"
    using assms(1) by (simp_all add: not_less less_imp_le)
  then have f1: "(b + l < s_base n1) = False" and f2: "(b + l = s_base n1) = False"
    by (simp_all only: assms(3))
  have f3: "(b < s_base n1 + s_length n1) = False" using assms(2) by simp
  have f4: "(b = s_base n1 + s_length n1) = True" using assms(2) by simp
  have f5: "(s_base n2 < b + l) = False" using assms(3) by simp
  have f6: "(b + l = s_base n2) = True" using assms(3) by simp
  show ?thesis
    by (simp only: free_scan.simps f1 f2 f3 f4 f5 f6 if_False if_True list.case
        remove_span_def prod.case)
qed

lemma free_merges_neighbours:
  assumes inv: "list_inv a"
    and app: "free_mem_root a = pre @ n1 # n2 # post"
    and b1: "align_down (r_granularity a) base = s_base n1 + s_length n1"
    and b2: "align_down (r_granularity a) base + align_up (r_granularity a) len = s_base n2"
  shows "free a base len =
           Inr (a\<lparr>free_mem_root :=
                     pre @ n1\<lparr>s_length := s_length n1
                                  + (align_up (r_granularity a) len + s_length n2)\<rparr> # post,
                  spans := release (spans a) (s_node n2)\<rparr>)"
proof -
  define b where "b = align_down (r_granularity a) base"
  define l where "l = align_up (r_granularity a) len"
  have hi: "range_end a < 2 ^ 64" and g: "r_granularity a \<noteq> 0"
    and gp: "gapped (unat (r_base a)) (range_end a) (pre @ n1 # n2 # post)"
    using inv app by (simp_all add: list_inv_def)
  have g2: "gapped (unat (r_base a)) (range_end a) (n1 # n2 # post)"
    using gp by (rule gapped_append_tail)
  then have f: "unat (r_base a) \<le> unat (s_base n1)" "span_end n1 \<le> range_end a"
    "span_end n1 < unat (s_base n2)" "span_end n2 \<le> range_end a"
    by simp_all
  have ue1: "unat (s_base n1 + s_length n1) = span_end n1"
    using f hi by (simp add: span_end_def unat_add64)
  have ub: "unat b = span_end n1" using b1 ue1 by (simp add: b_def)
  have "l = s_base n2 - b" using b2[symmetric] by (simp add: b_def l_def)
  then have ul: "unat l = unat (s_base n2) - unat b"
    using f ub by (simp add: unat_sub64)
  then have sum: "unat b + unat l = unat (s_base n2)" using f ub by simp
  have "unat (s_base n2) \<le> span_end n2" by (simp add: span_end_def)
  then have ubl: "unat (b + l) = unat b + unat l" using sum f hi by (simp add: unat_add64)
  have ue: "unat (r_base a + r_length a) = range_end a"
    using hi by (simp add: range_end_def unat_add64)
  have "unat (s_base n1) \<le> span_end n1" by (simp add: span_end_def)
  then have ck: "l \<noteq> 0" "\<not> b < r_base a" "\<not> r_base a + r_length a \<le> b"
    "\<not> r_base a + r_length a < b + l"
    using f ub ul sum \<open>unat (s_base n2) \<le> span_end n2\<close>
    by (simp_all add: word_le_nat_alt word_less_nat_alt word_unat_eq_iff ue ubl)
  have "free_scan b l (pre @ n1 # n2 # post) (spans a) =
           Inr (pre @ n1\<lparr>s_length := s_length n1 + (l + s_length n2)\<rparr> # post,
                s_node n2 # spans a)"
    using hi gp ub sum by (rule free_scan_merge)
  then show ?thesis using g ck
    by (simp add: free_def Let_def l_def[symmetric] b_def[symmetric] app release_def)
qed

section \<open>Alignment\<close>

lemma aligned_spans_Cons [simp]:
  "aligned_spans g (s # ss) \<longleftrightarrow>
     unat g dvd unat (s_base s) \<and> unat g dvd unat (s_length s) \<and> 0 < unat (s_length s)
     \<and> aligned_spans g ss"
  by (simp add: aligned_spans_def)

lemma aligned_spans_Nil [simp]: "aligned_spans g []"
  by (simp add: aligned_spans_def)

lemma aligned_spans_append [simp]:
  "aligned_spans g (xs @ ys) \<longleftrightarrow> aligned_spans g xs \<and> aligned_spans g ys"
  by (simp add: aligned_spans_def)

lemma trunc_span_low_aligned:
  assumes "hi < 2 ^ 64" "gapped lo hi (cur # rest)" "aligned_spans g (cur # rest)"
    "unat l \<le> unat (s_length cur)" "unat g dvd unat l"
    "trunc_span_low cur rest l pool = Inr (chain, pool')"
  shows "aligned_spans g chain"
proof (cases "l = s_length cur")
  case True
  then show ?thesis using assms by (simp add: trunc_span_low_def remove_span_def)
next
  case False
  then have c: "chain = cur\<lparr>s_base := s_base cur + l, s_length := s_length cur - l\<rparr> # rest"
    using assms(6) by (simp add: trunc_span_low_def)
  have lt: "unat l < unat (s_length cur)" using False assms(4) by (simp add: neq64)
  have "unat (s_base cur) + unat l < 2 ^ 64" using assms(1,2,4) by (simp add: span_end_def)
  then have u1: "unat (s_base cur + l) = unat (s_base cur) + unat l" by (rule unat_add64)
  have u2: "unat (s_length cur - l) = unat (s_length cur) - unat l"
    using assms(4) by (rule unat_sub64)
  show ?thesis using assms(3,5) lt by (simp add: c u1 u2)
qed

lemma trunc_span_high_aligned:
  assumes "aligned_spans g (cur # rest)"
    "unat l \<le> unat (s_length cur)" "unat g dvd unat l"
    "trunc_span_high cur rest l pool = Inr (chain, pool')"
  shows "aligned_spans g chain"
proof (cases "l = s_length cur")
  case True
  then show ?thesis using assms by (simp add: trunc_span_high_def remove_span_def)
next
  case False
  then have c: "chain = cur\<lparr>s_length := s_length cur - l\<rparr> # rest"
    using assms(4) by (simp add: trunc_span_high_def)
  have lt: "unat l < unat (s_length cur)" using False assms(2) by (simp add: neq64)
  have u2: "unat (s_length cur - l) = unat (s_length cur) - unat l"
    using assms(2) by (rule unat_sub64)
  show ?thesis using assms(1,3) lt by (simp add: c u2)
qed

lemma trunc_span_middle_aligned:
  assumes "hi < 2 ^ 64" "gapped lo hi (cur # rest)" "aligned_spans g (cur # rest)"
    "unat (s_base cur) < unat h" "unat h + unat l < span_end cur"
    "unat g dvd unat l" "unat g dvd unat h"
    "trunc_span_middle cur rest h l pool = Inr (chain, pool')"
  shows "aligned_spans g chain"
proof -
  have ne: "l \<noteq> s_length cur" using assms(4,5) by (auto simp: span_end_def)
  then obtain s where
    c: "chain = cur\<lparr>s_length := h - s_base cur\<rparr>
               # \<lparr>s_node = s, s_base = h + l,
                   s_length = s_base cur + s_length cur - (h + l)\<rparr> # rest"
    using assms(8) by (auto simp: trunc_span_middle_def split: option.splits)
  have e: "span_end cur < 2 ^ 64" using assms(1,2) by simp
  have ue: "unat (s_base cur + s_length cur) = span_end cur"
    using e by (simp add: span_end_def unat_add64)
  have uh: "unat (h + l) = unat h + unat l" using assms(5) e by (simp add: unat_add64)
  have u1: "unat (h - s_base cur) = unat h - unat (s_base cur)"
    using assms(4) by (simp add: unat_sub64)
  have u2: "unat (s_base cur + s_length cur - (h + l)) = span_end cur - (unat h + unat l)"
    using assms(5) by (simp add: unat_sub64 ue uh)
  have "unat g dvd span_end cur" using assms(3) by (simp add: span_end_def)
  then have "unat g dvd span_end cur - (unat h + unat l)"
    using assms(6,7) by (simp add: dvd_diff_nat)
  then show ?thesis using assms(3,4,5,6,7) by (simp add: c u1 u2 uh)
qed

lemma split_span_aligned:
  assumes hi: "hi < 2 ^ 64"
    and g: "gapped lo hi (cur # rest)"
    and al: "aligned_spans gr (cur # rest)"
    and chk: "check_span cur l fl h"
    and dl: "unat gr dvd unat l"
    and dh: "fl = ALLOCATE_EXACT \<and> unat gr dvd unat h \<or> fl = ALLOCATE_ANY
             \<or> fl = ALLOCATE_ABOVE \<or> fl = ALLOCATE_BELOW"
    and nw: "fl = ALLOCATE_ANY \<or> fl = ALLOCATE_BELOW \<or> unat h + unat l < 2 ^ 64"
    and res: "split_span cur rest l fl h pool = Inr (addr, chain, pool')"
  shows "aligned_spans gr chain"
proof -
  have e: "span_end cur < 2 ^ 64" using g hi by simp
  have rg: "unat (s_base cur) \<le> unat addr" "unat addr + unat l \<le> span_end cur"
    using split_span_range[OF e chk nw res] by simp_all
  then have le: "unat l \<le> unat (s_length cur)" by (simp add: span_end_def)
  note ad = split_span_addr[OF res]
  show ?thesis
  proof (cases fl)
    case ALLOCATE_ANY
    then have "trunc_span_low cur rest l pool = Inr (chain, pool')" using res by simp
    then show ?thesis by (rule trunc_span_low_aligned[OF hi g al le dl])
  next
    case ALLOCATE_BELOW
    then have "trunc_span_low cur rest l pool = Inr (chain, pool')" using res by simp
    then show ?thesis by (rule trunc_span_low_aligned[OF hi g al le dl])
  next
    case ALLOCATE_ABOVE
    then have "trunc_span_high cur rest l pool = Inr (chain, pool')" using res by simp
    then show ?thesis by (rule trunc_span_high_aligned[OF al le dl])
  next
    case ALLOCATE_EXACT
    then have ah: "addr = h" using ad by simp
    have dh': "unat gr dvd unat h" using dh ALLOCATE_EXACT by simp
    have uh: "unat (h + l) = unat h + unat l" using nw ALLOCATE_EXACT by (simp add: unat_add64)
    have ue: "unat (s_base cur + s_length cur) = span_end cur"
      using e by (simp add: span_end_def unat_add64)
    show ?thesis
    proof (cases "s_base cur = h")
      case True
      then have "trunc_span_low cur rest l pool = Inr (chain, pool')"
        using ALLOCATE_EXACT res by simp
      then show ?thesis by (rule trunc_span_low_aligned[OF hi g al le dl])
    next
      case nb: False
      show ?thesis
      proof (cases "h + l = s_base cur + s_length cur")
        case True
        then have "trunc_span_high cur rest l pool = Inr (chain, pool')"
          using ALLOCATE_EXACT res nb by simp
        then show ?thesis by (rule trunc_span_high_aligned[OF al le dl])
      next
        case False
        then have "unat h + unat l \<noteq> span_end cur"
          by (simp add: word_unat_eq_iff uh ue)
        then have "unat h + unat l < span_end cur" using rg ah by simp
        moreover have "unat (s_base cur) < unat h" using nb rg ah by (simp add: neq64)
        moreover have "trunc_span_middle cur rest h l pool = Inr (chain, pool')"
          using ALLOCATE_EXACT res nb False by simp
        ultimately show ?thesis
          using trunc_span_middle_aligned[OF hi g al _ _ dl dh'] by blast
      qed
    qed
  qed
qed

lemma allocate_aligned:
  assumes inv: "list_inv a"
    and al: "aligned_spans (r_granularity a) (free_mem_root a)"
    and nw: "no_wrap (r_granularity a) (Allocate len fl h)"
    and ha: "hint_aligned (r_granularity a) (Allocate len fl h)"
    and res: "allocate a len fl h = Inr (addr, a')"
  shows "aligned_spans (r_granularity a) (free_mem_root a')"
proof (cases "addr = - 1 \<and> a' = a")
  case True
  then show ?thesis using al by simp
next
  case False
  define l where "l = align_up (r_granularity a) len"
  have g: "r_granularity a \<noteq> 0" and hi: "range_end a < 2 ^ 64"
    and gp: "gapped (unat (r_base a)) (range_end a) (free_mem_root a)"
    using inv by (simp_all add: list_inv_def)
  have ok: "l \<noteq> 0" "\<not> l > r_length a"
    using res g False by (auto simp: allocate_def Let_def l_def split: if_splits)
  obtain passed found where f: "find_span (free_mem_root a) l fl h = (passed, found)"
    by (cases "find_span (free_mem_root a) l fl h")
  then obtain cur rest where c: "found = cur # rest"
    using res g ok False by (cases found) (auto simp: allocate_def Let_def l_def)
  from res g f ok c obtain chain pool where
    s: "split_span cur rest l fl h (spans a) = Inr (addr, chain, pool)"
    and a': "a' = a\<lparr>free_mem_root := passed @ chain, spans := pool\<rparr>"
    by (auto simp: allocate_def Let_def l_def split: sum.splits)
  have chk: "check_span cur l fl h" using f c by (auto dest: find_span_check)
  have app: "free_mem_root a = passed @ cur # rest"
    using f c by (auto dest: find_span_append)
  have gc: "gapped (unat (r_base a)) (range_end a) (cur # rest)"
    using gapped_append_tail[of _ _ passed "cur # rest"] gp app by simp
  have dl: "unat (r_granularity a) dvd unat l" unfolding l_def using g by (rule align_up_dvd)
  have nw': "fl = ALLOCATE_ANY \<or> fl = ALLOCATE_BELOW \<or> unat h + unat l < 2 ^ 64"
    using nw by (simp add: l_def)
  have dh: "fl = ALLOCATE_EXACT \<and> unat (r_granularity a) dvd unat h \<or> fl = ALLOCATE_ANY
             \<or> fl = ALLOCATE_ABOVE \<or> fl = ALLOCATE_BELOW"
    using ha by simp
  have "aligned_spans (r_granularity a) (cur # rest)" using al app by simp
  then have "aligned_spans (r_granularity a) chain"
    using split_span_aligned[OF hi gc _ chk dl dh nw' s] by blast
  then show ?thesis using al app by (simp add: a')
qed

lemma free_scan_aligned:
  assumes "hi < 2 ^ 64" and db: "unat g dvd unat b" and dl: "unat g dvd unat l"
  shows "gapped lo hi ss \<Longrightarrow> aligned_spans g ss \<Longrightarrow> 0 < unat l \<Longrightarrow> unat b + unat l \<le> hi
    \<Longrightarrow> free_scan b l ss pool = Inr (chain, pool') \<Longrightarrow> aligned_spans g chain"
proof (induction ss arbitrary: lo chain)
  case Nil
  then show ?case using db dl by (auto split: option.splits)
next
  case (Cons nxt rest)
  note fs = \<open>free_scan b l (nxt # rest) pool = Inr (chain, pool')\<close>
  have e: "span_end nxt \<le> hi" "0 < unat (s_length nxt)"
    and r: "gapped (Suc (span_end nxt)) hi rest"
    using Cons.prems(1) by simp_all
  have an: "unat g dvd unat (s_base nxt)" "unat g dvd unat (s_length nxt)"
    and ar: "aligned_spans g rest"
    using Cons.prems(2) by simp_all
  have ue: "unat (s_base nxt + s_length nxt) = span_end nxt"
    using e assms(1) by (simp add: span_end_def unat_add64)
  have ub: "unat (b + l) = unat b + unat l"
    using Cons.prems(4) assms(1) by (simp add: unat_add64)
  consider (before) "unat b + unat l < unat (s_base nxt)"
    | (touch) "unat b + unat l = unat (s_base nxt)"
    | (overlap) "unat (s_base nxt) < unat b + unat l" "unat b < span_end nxt"
    | (after) "unat b = span_end nxt"
    | (beyond) "span_end nxt < unat b"
    by linarith
  then show ?case
  proof cases
    case before
    then show ?thesis using fs Cons.prems(2,3) db dl
      by (auto simp: w2n ub split: option.splits)
  next
    case touch
    then have c: "chain = nxt\<lparr>s_base := b, s_length := s_length nxt + l\<rparr> # rest"
      using fs by (simp add: w2n neq64 word_unat_eq_iff ub)
    have u: "unat (s_length nxt + l) = unat (s_length nxt) + unat l"
      using e assms(1) touch by (simp add: unat_add64 span_end_def)
    show ?thesis using an ar db dl e by (simp add: c u)
  next
    case overlap
    then have "chain = nxt # rest" using fs
      by (simp add: w2n word_unat_eq_iff ub ue)
    then show ?thesis using Cons.prems(2) by simp
  next
    case after
    have n: "\<not> unat b + unat l < unat (s_base nxt)" "unat b + unat l \<noteq> unat (s_base nxt)"
      using after e Cons.prems(3) by (simp_all add: span_end_def)
    have u: "unat (s_length nxt + l) = unat (s_length nxt) + unat l"
      using e assms(1) after Cons.prems(4) by (simp add: unat_add64 span_end_def)
    show ?thesis
    proof (cases rest)
      case Nil
      then have c: "chain = [nxt\<lparr>s_length := s_length nxt + l\<rparr>]"
        using fs n after by (simp add: w2n word_unat_eq_iff ub ue)
      show ?thesis using an dl e by (simp add: c u)
    next
      case (Cons nn rest')
      have nn: "span_end nn \<le> hi" "Suc (span_end nxt) \<le> unat (s_base nn)"
        "0 < unat (s_length nn)"
        using r Cons by simp_all
      have ann: "unat g dvd unat (s_length nn)" and ar': "aligned_spans g rest'"
        using ar Cons by simp_all
      consider (x) "unat (s_base nn) < unat b + unat l"
        | (y) "unat b + unat l = unat (s_base nn)"
        | (z) "unat b + unat l < unat (s_base nn)" by linarith
      then show ?thesis
      proof cases
        case x
        then have "chain = nxt # rest" using fs n after Cons
          by (simp add: w2n word_unat_eq_iff ub ue)
        then show ?thesis using \<open>aligned_spans g (nxt # rest)\<close> by simp
      next
        case y
        then have c: "chain = nxt\<lparr>s_length := s_length nxt + (l + s_length nn)\<rparr> # rest'"
          using fs n after Cons
          by (simp add: w2n word_unat_eq_iff ub ue remove_span_def)
        have u1: "unat (l + s_length nn) = unat l + unat (s_length nn)"
          using nn assms(1) y by (simp add: unat_add64 span_end_def)
        have u2: "unat (s_length nxt + (l + s_length nn))
                       = unat (s_length nxt) + (unat l + unat (s_length nn))"
          using nn assms(1) y after u1 by (simp add: unat_add64 span_end_def)
        show ?thesis using an ann ar' dl e by (simp add: c u2)
      next
        case z
        then have c: "chain = nxt\<lparr>s_length := s_length nxt + l\<rparr> # rest"
          using fs n after Cons
          by (simp add: w2n word_unat_eq_iff ub ue)
        show ?thesis using an ar dl e by (simp add: c u)
      qed
    qed
  next
    case beyond
    then obtain chain' where
      s: "free_scan b l rest pool = Inr (chain', pool')" and c: "chain = nxt # chain'"
      using fs e Cons.prems(3)
      by (auto simp: w2n word_unat_eq_iff ub ue span_end_def split: sum.splits)
    have "aligned_spans g chain'"
      using Cons.IH[OF r ar Cons.prems(3,4) s] .
    then show ?thesis using an e by (simp add: c)
  qed
qed

lemma free_aligned:
  assumes inv: "list_inv a"
    and al: "aligned_spans (r_granularity a) (free_mem_root a)"
    and nw: "no_wrap (r_granularity a) (Free base len)"
    and res: "free a base len = Inr a'"
  shows "aligned_spans (r_granularity a) (free_mem_root a')"
proof -
  define b where "b = align_down (r_granularity a) base"
  define l where "l = align_up (r_granularity a) len"
  have hi: "range_end a < 2 ^ 64" and g: "r_granularity a \<noteq> 0"
    and gp: "gapped (unat (r_base a)) (range_end a) (free_mem_root a)"
    using inv by (simp_all add: list_inv_def)
  have nw': "unat b + unat l < 2 ^ 64" using nw by (simp add: b_def l_def)
  have ue: "unat (r_base a + r_length a) = range_end a"
    using hi by (simp add: range_end_def unat_add64)
  have ub: "unat (b + l) = unat b + unat l" using nw' by (simp add: unat_add64)
  have db: "unat (r_granularity a) dvd unat b" by (simp add: b_def unat_align_down)
  have dl: "unat (r_granularity a) dvd unat l" unfolding l_def using g by (rule align_up_dvd)
  show ?thesis
  proof (cases "l = 0 \<or> b < r_base a \<or> b \<ge> r_base a + r_length a \<or> b + l > r_base a + r_length a")
    case True
    then have "a' = a" using res g
      by (auto simp: free_def Let_def l_def b_def split: if_splits)
    then show ?thesis using al by simp
  next
    case False
    then obtain chain pool where
      s: "free_scan b l (free_mem_root a) (spans a) = Inr (chain, pool)"
      and a': "a' = a\<lparr>free_mem_root := chain, spans := pool\<rparr>"
      using res g by (auto simp: free_def Let_def l_def b_def split: if_splits sum.splits)
    from False have "0 < unat l" "unat b + unat l \<le> range_end a"
      by (simp_all add: w2n ue ub unat_gt_0 not_less not_le)
    then have "aligned_spans (r_granularity a) chain"
      using free_scan_aligned[OF hi db dl gp al _ _ s] by blast
    then show ?thesis by (simp add: a')
  qed
qed

lemma step_aligned:
  assumes i: "list_inv a" and al: "aligned_spans (r_granularity a) (free_mem_root a)"
    and nw: "no_wrap (r_granularity a) c" and ha: "hint_aligned (r_granularity a) c"
    and s: "step a c = Inr a'"
  shows "aligned_spans (r_granularity a) (free_mem_root a')"
proof (cases c)
  case (Allocate len flags hint)
  then obtain addr where r: "allocate a len flags hint = Inr (addr, a')"
    using s by (cases "allocate a len flags hint") auto
  show ?thesis
    using i al nw[unfolded Allocate] ha[unfolded Allocate] r by (rule allocate_aligned)
next
  case (Free base len)
  then have r: "free a base len = Inr a'" using s by simp
  show ?thesis using i al nw[unfolded Free] r by (rule free_aligned)
qed

lemma run_aligned:
  "list_inv a \<Longrightarrow> aligned_spans (r_granularity a) (free_mem_root a)
     \<Longrightarrow> list_all (no_wrap (r_granularity a)) cs
     \<Longrightarrow> list_all (hint_aligned (r_granularity a)) cs
     \<Longrightarrow> run a cs = Inr a' \<Longrightarrow> aligned_spans (r_granularity a) (free_mem_root a')"
proof (induction cs arbitrary: a)
  case Nil
  then show ?case by simp
next
  case (Cons c cs)
  then obtain a1 where s: "step a c = Inr a1" and r: "run a1 cs = Inr a'"
    by (auto split: sum.splits)
  have i: "list_inv a1" using Cons.prems s by (auto intro: step_list_inv)
  have c: "r_granularity a1 = r_granularity a" using step_config[OF s] by simp
  have al: "aligned_spans (r_granularity a1) (free_mem_root a1)"
    using step_aligned[OF Cons.prems(1,2) _ _ s] Cons.prems(3,4) c by simp
  show ?case using Cons.IH[OF i al _ _ r] Cons.prems(3,4) c by simp
qed

lemma create_aligned:
  assumes c: "create_range_allocator base len g = Inr (Some a)"
    and d: "unat g dvd unat base"
  shows "aligned_spans g (free_mem_root a)"
proof -
  note f = create_fields[OF c]
  obtain s where s: "free_mem_root a = [\<lparr>s_node = s, s_base = base, s_length = len div g * g\<rparr>]"
    using f(7) by blast
  have "0 < unat (len div g * g)" using f(2,3) by (rule effective_length_pos)
  then show ?thesis using d by (simp add: s unat_div_mult64)
qed

section \<open>The length that allocate takes\<close>

lemma free_total_Nil [simp]: "free_total [] = 0"
  by (simp add: free_total_def)

lemma free_total_Cons [simp]: "free_total (s # ss) = unat (s_length s) + free_total ss"
  by (simp add: free_total_def)

lemma free_total_append [simp]: "free_total (xs @ ys) = free_total xs + free_total ys"
  by (simp add: free_total_def)

lemma trunc_span_low_total:
  assumes "unat l \<le> unat (s_length cur)"
    "trunc_span_low cur rest l pool = Inr (chain, pool')"
  shows "free_total chain + unat l = free_total (cur # rest)"
proof (cases "l = s_length cur")
  case True
  then show ?thesis using assms by (simp add: trunc_span_low_def remove_span_def)
next
  case False
  then have c: "chain = cur\<lparr>s_base := s_base cur + l, s_length := s_length cur - l\<rparr> # rest"
    using assms(2) by (simp add: trunc_span_low_def)
  have "unat (s_length cur - l) = unat (s_length cur) - unat l"
    using assms(1) by (rule unat_sub64)
  then show ?thesis using assms(1) by (simp add: c)
qed

lemma trunc_span_high_total:
  assumes "unat l \<le> unat (s_length cur)"
    "trunc_span_high cur rest l pool = Inr (chain, pool')"
  shows "free_total chain + unat l = free_total (cur # rest)"
proof (cases "l = s_length cur")
  case True
  then show ?thesis using assms by (simp add: trunc_span_high_def remove_span_def)
next
  case False
  then have c: "chain = cur\<lparr>s_length := s_length cur - l\<rparr> # rest"
    using assms(2) by (simp add: trunc_span_high_def)
  have "unat (s_length cur - l) = unat (s_length cur) - unat l"
    using assms(1) by (rule unat_sub64)
  then show ?thesis using assms(1) by (simp add: c)
qed

lemma trunc_span_middle_total:
  assumes e: "span_end cur < 2 ^ 64"
    and lo: "unat (s_base cur) < unat h" and up: "unat h + unat l < span_end cur"
    and t: "trunc_span_middle cur rest h l pool = Inr (chain, pool')"
  shows "free_total chain + unat l = free_total (cur # rest)"
proof -
  have ne: "l \<noteq> s_length cur" using lo up by (auto simp: span_end_def)
  then obtain s where
    c: "chain = cur\<lparr>s_length := h - s_base cur\<rparr>
               # \<lparr>s_node = s, s_base = h + l,
                   s_length = s_base cur + s_length cur - (h + l)\<rparr> # rest"
    using t by (auto simp: trunc_span_middle_def split: option.splits)
  have ue: "unat (s_base cur + s_length cur) = span_end cur"
    using e by (simp add: span_end_def unat_add64)
  have uh: "unat (h + l) = unat h + unat l" using up e by (simp add: unat_add64)
  have u1: "unat (h - s_base cur) = unat h - unat (s_base cur)"
    using lo by (simp add: unat_sub64)
  have u2: "unat (s_base cur + s_length cur - (h + l)) = span_end cur - (unat h + unat l)"
    using up by (simp add: unat_sub64 ue uh)
  have "unat h - unat (s_base cur) + (span_end cur - (unat h + unat l)) + unat l
          = unat (s_length cur)"
    using lo up by (simp add: span_end_def)
  then show ?thesis by (simp add: c u1 u2)
qed

lemma split_span_total:
  assumes e: "span_end cur < 2 ^ 64"
    and chk: "check_span cur l fl h"
    and nw: "fl = ALLOCATE_ANY \<or> fl = ALLOCATE_BELOW \<or> unat h + unat l < 2 ^ 64"
    and res: "split_span cur rest l fl h pool = Inr (addr, chain, pool')"
  shows "free_total chain + unat l = free_total (cur # rest)"
proof -
  have rg: "unat (s_base cur) \<le> unat addr" "unat addr + unat l \<le> span_end cur"
    using split_span_range[OF e chk nw res] by simp_all
  then have le: "unat l \<le> unat (s_length cur)" by (simp add: span_end_def)
  note ad = split_span_addr[OF res]
  show ?thesis
  proof (cases fl)
    case ALLOCATE_ANY
    then have "trunc_span_low cur rest l pool = Inr (chain, pool')" using res by simp
    then show ?thesis by (rule trunc_span_low_total[OF le])
  next
    case ALLOCATE_BELOW
    then have "trunc_span_low cur rest l pool = Inr (chain, pool')" using res by simp
    then show ?thesis by (rule trunc_span_low_total[OF le])
  next
    case ALLOCATE_ABOVE
    then have "trunc_span_high cur rest l pool = Inr (chain, pool')" using res by simp
    then show ?thesis by (rule trunc_span_high_total[OF le])
  next
    case ALLOCATE_EXACT
    then have ah: "addr = h" using ad by simp
    have uh: "unat (h + l) = unat h + unat l" using nw ALLOCATE_EXACT by (simp add: unat_add64)
    have ue: "unat (s_base cur + s_length cur) = span_end cur"
      using e by (simp add: span_end_def unat_add64)
    show ?thesis
    proof (cases "s_base cur = h")
      case True
      then have "trunc_span_low cur rest l pool = Inr (chain, pool')"
        using ALLOCATE_EXACT res by simp
      then show ?thesis by (rule trunc_span_low_total[OF le])
    next
      case nb: False
      show ?thesis
      proof (cases "h + l = s_base cur + s_length cur")
        case True
        then have "trunc_span_high cur rest l pool = Inr (chain, pool')"
          using ALLOCATE_EXACT res nb by simp
        then show ?thesis by (rule trunc_span_high_total[OF le])
      next
        case False
        then have "unat h + unat l \<noteq> span_end cur"
          by (simp add: word_unat_eq_iff uh ue)
        then have "unat h + unat l < span_end cur" using rg ah by simp
        moreover have "unat (s_base cur) < unat h" using nb rg ah by (simp add: neq64)
        moreover have "trunc_span_middle cur rest h l pool = Inr (chain, pool')"
          using ALLOCATE_EXACT res nb False by simp
        ultimately show ?thesis
          using trunc_span_middle_total[OF e] by blast
      qed
    qed
  qed
qed

lemma allocate_takes_rounded:
  assumes inv: "list_inv a"
    and nw: "no_wrap (r_granularity a) (Allocate len flags hint)"
    and res: "allocate a len flags hint = Inr (addr, a')"
    and ok: "addr \<noteq> - 1"
  shows "was_free (free_mem_root a) addr (align_up (r_granularity a) len)
         \<and> free_total (free_mem_root a') + unat (align_up (r_granularity a) len)
             = free_total (free_mem_root a)"
proof -
  define l where "l = align_up (r_granularity a) len"
  obtain passed cur rest chain pool where
    app: "free_mem_root a = passed @ cur # rest"
    and chk: "check_span cur l flags hint"
    and s: "split_span cur rest l flags hint (spans a) = Inr (addr, chain, pool)"
    and a': "a' = a\<lparr>free_mem_root := passed @ chain, spans := pool\<rparr>"
    using allocate_found[OF inv res ok] unfolding l_def by blast
  have hi: "range_end a < 2 ^ 64"
    and gp: "gapped (unat (r_base a)) (range_end a) (free_mem_root a)"
    using inv by (simp_all add: list_inv_def)
  have mem: "cur \<in> set (free_mem_root a)" using app by simp
  then have e: "span_end cur < 2 ^ 64" using gapped_bounds[OF gp] hi by fastforce
  have nw': "flags = ALLOCATE_ANY \<or> flags = ALLOCATE_BELOW \<or> unat hint + unat l < 2 ^ 64"
    using nw by (simp add: l_def)
  have "unat (s_base cur) \<le> unat addr \<and> unat addr + unat l \<le> span_end cur"
    using split_span_range[OF e chk nw' s] .
  then have w: "was_free (free_mem_root a) addr l"
    using mem by (auto simp: was_free_def list_ex_iff)
  have "free_total chain + unat l = free_total (cur # rest)"
    using split_span_total[OF e chk nw' s] .
  then have "free_total (free_mem_root a') + unat l = free_total (free_mem_root a)"
    by (simp add: a' app)
  then show ?thesis using w by (simp add: l_def)
qed

lemma allocate_with_rounded:
  assumes "r_granularity a \<noteq> 0"
  shows "allocate a len flags hint =
     (if align_up (r_granularity a) len = 0 \<or> r_length a < align_up (r_granularity a) len
      then Inr (- 1, a)
      else case find_span (free_mem_root a) (align_up (r_granularity a) len) flags hint of
        (passed, []) \<Rightarrow> Inr (- 1, a)
      | (passed, cur # rest) \<Rightarrow>
          (case split_span cur rest (align_up (r_granularity a) len) flags hint (spans a) of
             Inl e \<Rightarrow> Inl e
           | Inr (base, chain, pool) \<Rightarrow>
               Inr (base, a\<lparr>free_mem_root := passed @ chain, spans := pool\<rparr>)))"
  using assms by (simp add: allocate_def Let_def)

section \<open>Evaluation of the example states\<close>

lemma create_example:
  "create_range_allocator 0x1000 4096 64 = Inr (Some example_allocator)"
  by (simp add: create_range_allocator_def range_allocator_init_def span_manager_pool_def
      add_span_def get_def example_allocator_def upt_conv_Cons)

lemma allocate_example_any:
  "allocate example_allocator 64 ALLOCATE_ANY 0 = Inr (0x1000, example_after_any)"
  by (simp add: allocate_def example_allocator_def example_after_any_def align_up_def
      trunc_span_low_def)

lemma free_example_any: "free example_after_any 0x1000 64 = Inr example_allocator"
  by (simp add: free_def example_allocator_def example_after_any_def align_up_def
      align_down_def)

lemma free_example_overlap: "free example_allocator 0x1000 64 = Inr example_allocator"
  by (simp add: free_def example_allocator_def align_up_def align_down_def)

lemma example_config:
  "r_base example_allocator = 0x1000" "r_length example_allocator = 4096"
  "r_granularity example_allocator = 64"
  "r_base example_after_any = 0x1000" "r_length example_after_any = 4096"
  "r_granularity example_after_any = 64"
  by (simp_all add: example_allocator_def example_after_any_def)

lemma allocate_example_exact:
  "allocate example_allocator 64 ALLOCATE_EXACT 0x1800 = Inr (0x1800, example_after_exact)"
  by (simp add: allocate_def example_allocator_def example_after_exact_def align_up_def
      trunc_span_middle_def add_span_def get_def upt_conv_Cons)

lemma allocate_example_wrap:
  "allocate example_allocator 64 ALLOCATE_EXACT 0xFFFFFFFFFFFFFFC0
     = Inr (0xFFFFFFFFFFFFFFC0, example_after_wrap)"
  by (simp add: allocate_def example_allocator_def example_after_wrap_def align_up_def
      trunc_span_middle_def add_span_def get_def upt_conv_Cons)

lemma allocate_example_above:
  "allocate example_allocator 64 ALLOCATE_ABOVE 0x1800 = Inr (0x1FC0, example_after_above)"
  by (simp add: allocate_def example_allocator_def example_after_above_def align_up_def
      trunc_span_high_def)

lemma free_example_exact: "free example_after_exact 0x1800 64 = Inr example_allocator"
  by (simp add: free_def example_allocator_def example_after_exact_def align_up_def
      align_down_def remove_span_def release_def upt_conv_Cons)

lemma free_example_wrap:
  "free example_allocator 0x1040 0xFFFFFFFFFFFFFFC0 = Inr example_after_any"
  by (simp add: free_def example_allocator_def example_after_any_def align_up_def
      align_down_def)

lemma example_list_inv: "list_inv example_allocator"
  by (simp add: list_inv_def example_allocator_def range_end_def span_end_def)

lemma example_after_exact_list_inv: "list_inv example_after_exact"
  by (simp add: list_inv_def example_after_exact_def range_end_def span_end_def)

lemma create_top:
  "create_range_allocator 0xFFFFFFFFFFFFF000 2048 64 = Inr (Some top_allocator)"
  by (simp add: create_range_allocator_def range_allocator_init_def span_manager_pool_def
      add_span_def get_def top_allocator_def upt_conv_Cons)

lemma allocate_top_above:
  "allocate top_allocator 2048 ALLOCATE_ABOVE 0xFFFFFFFFFFFFF800
     = Inr (0xFFFFFFFFFFFFF000, top_after_above)"
  by (simp add: allocate_def top_allocator_def top_after_above_def align_up_def
      trunc_span_high_def remove_span_def release_def upt_conv_Cons)

lemma create_unaligned:
  "create_range_allocator 0x1001 4096 64 = Inr (Some unaligned_allocator)"
  by (simp add: create_range_allocator_def range_allocator_init_def span_manager_pool_def
      add_span_def get_def unaligned_allocator_def upt_conv_Cons)

lemma allocate_unaligned_any:
  "allocate unaligned_allocator 64 ALLOCATE_ANY 0 = Inr (0x1001, unaligned_after_any)"
  by (simp add: allocate_def unaligned_allocator_def unaligned_after_any_def align_up_def
      trunc_span_low_def)

lemma free_unaligned_any:
  "free unaligned_after_any 0x1001 64 = Inr unaligned_after_any"
  by (simp add: free_def unaligned_after_any_def align_up_def align_down_def)

lemma allocate_example_all:
  "allocate example_allocator 4096 ALLOCATE_ANY 0 = Inr (0x1000, example_all_allocated)"
  by (simp add: allocate_def example_allocator_def example_all_allocated_def align_up_def
      trunc_span_low_def remove_span_def release_def upt_conv_Cons)

lemma free_all_allocated_wrap:
  "free example_all_allocated 0x1040 0xFFFFFFFFFFFFFFC0 = Inr example_after_free_wrap"
  by (simp add: free_def example_all_allocated_def example_after_free_wrap_def align_up_def
      align_down_def add_span_def get_def upt_conv_Cons)

lemma allocate_example_unaligned_exact:
  "allocate example_allocator 64 ALLOCATE_EXACT 0x1820
     = Inr (0x1820, example_after_unaligned_exact)"
  by (simp add: allocate_def example_allocator_def example_after_unaligned_exact_def
      align_up_def trunc_span_middle_def add_span_def get_def upt_conv_Cons)

lemma free_example_after_wrap:
  "free example_after_wrap 0xFFFFFFFFFFFFFFC0 64 = Inr example_after_wrap"
  by (simp add: free_def example_after_wrap_def align_up_def align_down_def)

lemma allocate_top_any:
  "allocate top_allocator 1024 ALLOCATE_ANY 0 = Inr (0xFFFFFFFFFFFFF000, top_after_any)"
  by (simp add: allocate_def top_allocator_def top_after_any_def align_up_def
      trunc_span_low_def)

lemma allocate_top_any_above:
  "allocate top_after_any 2048 ALLOCATE_ABOVE 0xFFFFFFFFFFFFF800
     = Inr (0xFFFFFFFFFFFFF000, top_after_any_above)"
  by (simp add: allocate_def top_after_any_def top_after_any_above_def align_up_def
      trunc_span_high_def)

lemma create_beyond:
  "create_range_allocator 0xFFFFFFFFFFFFF000 8192 64 = Inr (Some beyond_allocator)"
  by (simp add: create_range_allocator_def range_allocator_init_def span_manager_pool_def
      add_span_def get_def beyond_allocator_def upt_conv_Cons)

lemma allocate_beyond_any:
  "allocate beyond_allocator 4096 ALLOCATE_ANY 0 = Inr (0xFFFFFFFFFFFFF000, beyond_after_any)"
  by (simp add: allocate_def beyond_allocator_def beyond_after_any_def align_up_def
      trunc_span_low_def)

lemma create_thirds: "create_range_allocator 3 12 3 = Inr (Some thirds_allocator)"
  by (simp add: create_range_allocator_def range_allocator_init_def span_manager_pool_def
      add_span_def get_def thirds_allocator_def upt_conv_Cons)

lemma allocate_thirds_wrap:
  "allocate thirds_allocator 3 ALLOCATE_EXACT 0xFFFFFFFFFFFFFFFF
     = Inr (0xFFFFFFFFFFFFFFFF, thirds_after_wrap)"
  by (simp add: allocate_def thirds_allocator_def thirds_after_wrap_def align_up_def
      trunc_span_middle_def add_span_def get_def)

lemma allocate_example_one:
  "allocate example_allocator 1 ALLOCATE_ANY 0 = Inr (0x1000, example_after_any)"
  by (simp add: allocate_def example_allocator_def example_after_any_def align_up_def
      trunc_span_low_def)

section \<open>The claims\<close>

text \<open>
  C1, at calls where a sum of the code wraps around. On the example allocator, \<open>allocate(64, ALLOCATE_EXACT, 0xFFFFFFFFFFFFFFC0)\<close> passes \<open>check_span\<close>
  (\<open>hint + length = 0\<close>) and \<open>trunc_span_middle\<close> leaves a span of length
  \<open>0xFFFFFFFFFFFFEFC0\<close> at \<open>0x1000\<close> followed by a span at address 0. With the whole
  range allocated, \<open>free(0x1040, 0xFFFFFFFFFFFFFFC0)\<close> passes the range check
  (\<open>base + length = 0x1000\<close>) and appends a span of length \<open>0xFFFFFFFFFFFFFFC0\<close>. On the
  range that ends at \<open>0xFFFFFFFFFFFFF800\<close>, with only \<open>[0xFFFFFFFFFFFFF400,
  0xFFFFFFFFFFFFF800)\<close> free, \<open>allocate(2048, ALLOCATE_ABOVE, 0xFFFFFFFFFFFFF800)\<close>
  passes \<open>check_span\<close> (\<open>hint + length = 0\<close>) and \<open>trunc_span_high\<close> subtracts 2048 from
  the length 1024. On a range that reaches beyond \<open>2^64\<close>, \<open>allocate(4096,
  ALLOCATE_ANY, 0)\<close> moves the base of the span to address 0.
\<close>

theorem exact_wrap_breaks_invariants:
  "create_range_allocator 0x1000 4096 64 = Inr (Some example_allocator)
   \<and> run example_allocator [Allocate 64 ALLOCATE_EXACT 0xFFFFFFFFFFFFFFC0]
       = Inr example_after_wrap
   \<and> \<not> strictly_ordered (free_mem_root example_after_wrap)
   \<and> \<not> no_overlap (free_mem_root example_after_wrap)
   \<and> \<not> in_range example_after_wrap (free_mem_root example_after_wrap)
   \<and> run example_allocator [Allocate 4096 ALLOCATE_ANY 0, Free 0x1040 0xFFFFFFFFFFFFFFC0]
       = Inr example_after_free_wrap
   \<and> \<not> in_range example_after_free_wrap (free_mem_root example_after_free_wrap)
   \<and> create_range_allocator 0xFFFFFFFFFFFFF000 2048 64 = Inr (Some top_allocator)
   \<and> run top_allocator
         [Allocate 1024 ALLOCATE_ANY 0, Allocate 2048 ALLOCATE_ABOVE 0xFFFFFFFFFFFFF800]
       = Inr top_after_any_above
   \<and> \<not> in_range top_after_any_above (free_mem_root top_after_any_above)
   \<and> create_range_allocator 0xFFFFFFFFFFFFF000 8192 64 = Inr (Some beyond_allocator)
   \<and> run beyond_allocator [Allocate 4096 ALLOCATE_ANY 0] = Inr beyond_after_any
   \<and> \<not> in_range beyond_after_any (free_mem_root beyond_after_any)"
  by (simp add: create_example allocate_example_wrap allocate_example_all
       free_all_allocated_wrap create_top allocate_top_any allocate_top_any_above
       create_beyond allocate_beyond_any)
     (simp add: example_after_wrap_def example_after_free_wrap_def top_after_any_above_def
       beyond_after_any_def strictly_ordered_def no_overlap_def in_range_def
       span_end_def range_end_def)

text \<open>
  Where no sum wraps around, the free list keeps the invariants of C1. Start from a
  successfully constructed allocator whose range ends below \<open>2^64\<close>, and run any
  sequence of calls that returns and in which no call wraps around
  (\<open>hint + rounded length < 2^64\<close> for \<open>ALLOCATE_EXACT\<close> and \<open>ALLOCATE_ABOVE\<close>,
  \<open>rounded base + rounded length < 2^64\<close> for \<open>free\<close>). Then the free list is strictly
  ordered by ascending base, no two spans overlap, no two
  consecutive spans are adjacent, and every span lies within
  \<open>[base, base + effective_length)\<close>.
\<close>

theorem free_list_invariants:
  assumes "create_range_allocator base len g = Inr (Some a0)"
    and "range_end a0 < 2 ^ 64"
    and "list_all (no_wrap g) calls"
    and "run a0 calls = Inr a"
  shows "strictly_ordered (free_mem_root a) \<and> no_overlap (free_mem_root a)
         \<and> no_adjacent (free_mem_root a) \<and> in_range a (free_mem_root a)"
proof -
  have i0: "list_inv a0" using assms(1,2) by (rule create_list_inv)
  have g: "r_granularity a0 = g" using assms(1) by (rule create_fields)
  have "list_inv a \<and> r_base a = r_base a0 \<and> r_length a = r_length a0
        \<and> r_granularity a = r_granularity a0"
    using i0 assms(3,4) g by (intro run_list_inv) simp_all
  then have "list_inv a" by (rule conjunct1)
  then have hi: "range_end a < 2 ^ 64"
    and gp: "gapped (unat (r_base a)) (range_end a) (free_mem_root a)"
    by (simp_all add: list_inv_def)
  show ?thesis
    using gapped_strictly_ordered[OF gp] gapped_no_overlap[OF gp]
      gapped_no_adjacent[OF hi gp] gapped_in_range[OF gp] by simp
qed

theorem free_list_invariants_witness:
  "create_range_allocator 0x1000 4096 64 = Inr (Some example_allocator)
   \<and> range_end example_allocator < 2 ^ 64
   \<and> list_all (no_wrap 64) [Allocate 64 ALLOCATE_EXACT 0x1800]
   \<and> run example_allocator [Allocate 64 ALLOCATE_EXACT 0x1800] = Inr example_after_exact
   \<and> strictly_ordered (free_mem_root example_after_exact)
   \<and> no_overlap (free_mem_root example_after_exact)
   \<and> no_adjacent (free_mem_root example_after_exact)
   \<and> in_range example_after_exact (free_mem_root example_after_exact)"
proof -
  have c: "create_range_allocator 0x1000 4096 64 = Inr (Some example_allocator)"
    by (rule create_example)
  have e: "range_end example_allocator < 2 ^ 64"
    by (simp add: range_end_def example_config)
  have n: "list_all (no_wrap 64) [Allocate 64 ALLOCATE_EXACT 0x1800]"
    by (simp add: align_up_def)
  have r: "run example_allocator [Allocate 64 ALLOCATE_EXACT 0x1800] = Inr example_after_exact"
    by (simp add: allocate_example_exact)
  show ?thesis using free_list_invariants[OF c e n r] c e n r by simp
qed

text \<open>
  C2, at an \<open>ALLOCATE_ABOVE\<close> call where \<open>hint + length\<close> wraps around. On the range \<open>[0xFFFFFFFFFFFFF000, 0xFFFFFFFFFFFFF800)\<close> the call
  \<open>allocate(2048, ALLOCATE_ABOVE, 0xFFFFFFFFFFFFF800)\<close> passes \<open>check_span\<close>
  (\<open>hint + length = 0\<close>) and returns \<open>0xFFFFFFFFFFFFF000\<close>, below the hint.
\<close>

theorem above_wrap_below_hint:
  "create_range_allocator 0xFFFFFFFFFFFFF000 2048 64 = Inr (Some top_allocator)
   \<and> allocate top_allocator 2048 ALLOCATE_ABOVE 0xFFFFFFFFFFFFF800
       = Inr (0xFFFFFFFFFFFFF000, top_after_above)
   \<and> (0xFFFFFFFFFFFFF000 :: vaddr_t) \<noteq> - 1
   \<and> \<not> (0xFFFFFFFFFFFFF800 :: vaddr_t) \<le> 0xFFFFFFFFFFFFF000"
  by (simp add: create_top allocate_top_above)

text \<open>
  Where \<open>hint + length\<close> does not wrap around, the policies of C2 hold. On an
  allocator that satisfies the invariant of the free list (with a range that ends
  below \<open>2^64\<close>), for every call of \<open>allocate\<close> that returns an
  address other than the sentinel: with \<open>ALLOCATE_ABOVE\<close> and
  \<open>hint + rounded length < 2^64\<close> the address is at least the hint; with
  \<open>ALLOCATE_BELOW\<close> the address plus the rounded length is at most the hint; with
  \<open>ALLOCATE_EXACT\<close> the address is the hint; with \<open>ALLOCATE_ANY\<close> the block lay
  inside a span of the free list before the call.
\<close>

theorem allocate_policy_correct:
  assumes inv: "list_inv a"
    and nw: "flags \<noteq> ALLOCATE_ABOVE
             \<or> unat hint + unat (align_up (r_granularity a) len) < 2 ^ 64"
    and res: "allocate a len flags hint = Inr (addr, a')"
    and ok: "addr \<noteq> - 1"
  shows "case flags of
           ALLOCATE_ANY \<Rightarrow> was_free (free_mem_root a) addr (align_up (r_granularity a) len)
         | ALLOCATE_EXACT \<Rightarrow> addr = hint
         | ALLOCATE_ABOVE \<Rightarrow> hint \<le> addr
         | ALLOCATE_BELOW \<Rightarrow>
             unat addr + unat (align_up (r_granularity a) len) \<le> unat hint"
proof -
  define l where "l = align_up (r_granularity a) len"
  obtain passed cur rest chain pool where
    app: "free_mem_root a = passed @ cur # rest"
    and chk: "check_span cur l flags hint"
    and s: "split_span cur rest l flags hint (spans a) = Inr (addr, chain, pool)"
    using allocate_found[OF inv res ok] unfolding l_def by blast
  have hi: "range_end a < 2 ^ 64"
    and gp: "gapped (unat (r_base a)) (range_end a) (free_mem_root a)"
    using inv by (simp_all add: list_inv_def)
  have "cur \<in> set (free_mem_root a)" using app by simp
  then have e: "span_end cur < 2 ^ 64" using gapped_bounds[OF gp] hi by fastforce
  then have ue: "unat (s_base cur + s_length cur) = span_end cur"
    by (simp add: span_end_def unat_add64)
  note ad = split_span_addr[OF s]
  show ?thesis
  proof (cases flags)
    case ALLOCATE_ANY
    then have "unat (s_base cur) \<le> unat addr \<and> unat addr + unat l \<le> span_end cur"
      using ad chk by (simp add: span_end_def w2n)
    then show ?thesis using ALLOCATE_ANY \<open>cur \<in> set (free_mem_root a)\<close>
      by (auto simp: was_free_def l_def list_ex_iff)
  next
    case ALLOCATE_EXACT
    then show ?thesis using ad by simp
  next
    case ALLOCATE_ABOVE
    then have nw': "unat hint + unat l < 2 ^ 64" using nw by (simp add: l_def)
    then have uh: "unat (hint + l) = unat hint + unat l" by (simp add: unat_add64)
    have le: "unat l \<le> span_end cur \<and> unat hint \<le> span_end cur - unat l"
      using chk ALLOCATE_ABOVE e
      by (auto simp: word_le_nat_alt word_less_nat_alt ue uh span_end_def split: if_splits)
    then have "unat (s_base cur + s_length cur - l) = span_end cur - unat l"
      by (simp add: unat_sub64 ue)
    then show ?thesis using ALLOCATE_ABOVE ad le by (simp add: word_le_nat_alt)
  next
    case ALLOCATE_BELOW
    then have le: "unat l \<le> unat (s_length cur)" using chk by (simp add: word_le_nat_alt)
    then have "unat (s_base cur + l) = unat (s_base cur) + unat l"
      using e by (simp add: unat_add64 span_end_def)
    then show ?thesis using ALLOCATE_BELOW ad chk by (simp add: word_le_nat_alt l_def)
  qed
qed

theorem allocate_policy_correct_witness:
  "list_inv example_allocator
   \<and> unat (0x1800 :: vaddr_t) + unat (align_up (r_granularity example_allocator) 64) < 2 ^ 64
   \<and> allocate example_allocator 64 ALLOCATE_ABOVE 0x1800 = Inr (0x1FC0, example_after_above)
   \<and> (0x1FC0 :: vaddr_t) \<noteq> - 1
   \<and> (0x1800 :: vaddr_t) \<le> 0x1FC0"
proof -
  have n: "unat (0x1800 :: vaddr_t) + unat (align_up (r_granularity example_allocator) 64)
             < 2 ^ 64"
    by (simp add: example_config align_up_def)
  have k: "(0x1FC0 :: vaddr_t) \<noteq> - 1" by simp
  show ?thesis
    using allocate_policy_correct[OF example_list_inv disjI2[OF n] allocate_example_above k]
      example_list_inv n allocate_example_above
    by simp
qed

text \<open>
  C3, at a range of three granules. The pool is built with \<open>(192 / 64) / 2 = 1\<close> record,
  not \<open>ceil(3 / 2) = 2\<close>; the constructor of the allocator takes it for the initial
  span. \<open>allocate(64, ALLOCATE_EXACT, 0x1040)\<close> splits that span around its middle
  granule, \<open>add_span\<close> returns the null pointer and \<open>trunc_span_middle\<close> writes through
  it.
\<close>

theorem pool_exhausted_three_granules:
  "create_range_allocator 0x1000 192 64 = Inr (Some three_granules)
   \<and> spans three_granules = []
   \<and> allocate three_granules 64 ALLOCATE_EXACT 0x1040 = Inl NullSpan"
  by (simp add: create_range_allocator_def range_allocator_init_def span_manager_pool_def
      add_span_def get_def three_granules_def allocate_def align_up_def
      trunc_span_middle_def)

text \<open>
  C4, on a range whose base is not a multiple of the granularity: the constructor
  keeps the base as it is, \<open>allocate(64, ALLOCATE_ANY, 0)\<close> returns \<open>0x1001\<close>, and
  \<open>free(0x1001, 64)\<close> rounds the address down to \<open>0x1000\<close>, below the range, and
  returns without a change, so \<open>free\<close> does not take back the address that \<open>allocate\<close>
  returned. The round trip fails as well where \<open>hint + length\<close> wraps around: after
  \<open>allocate(64, ALLOCATE_EXACT, 0xFFFFFFFFFFFFFFC0)\<close> on the example allocator,
  \<open>free(0xFFFFFFFFFFFFFFC0, 64)\<close> is out of the range and changes nothing.
\<close>

theorem unaligned_base_no_roundtrip:
  "create_range_allocator 0x1001 4096 64 = Inr (Some unaligned_allocator)
   \<and> strictly_ordered (free_mem_root unaligned_allocator)
   \<and> no_overlap (free_mem_root unaligned_allocator)
   \<and> no_adjacent (free_mem_root unaligned_allocator)
   \<and> in_range unaligned_allocator (free_mem_root unaligned_allocator)
   \<and> allocate unaligned_allocator 64 ALLOCATE_ANY 0 = Inr (0x1001, unaligned_after_any)
   \<and> align_up (r_granularity unaligned_allocator) 64 = 64
   \<and> free unaligned_after_any 0x1001 64 = Inr unaligned_after_any
   \<and> free_mem_root unaligned_after_any \<noteq> free_mem_root unaligned_allocator
   \<and> allocate example_allocator 64 ALLOCATE_EXACT 0xFFFFFFFFFFFFFFC0
       = Inr (0xFFFFFFFFFFFFFFC0, example_after_wrap)
   \<and> free example_after_wrap 0xFFFFFFFFFFFFFFC0 64 = Inr example_after_wrap
   \<and> free_mem_root example_after_wrap \<noteq> free_mem_root example_allocator"
  by (simp add: create_unaligned allocate_unaligned_any free_unaligned_any
       allocate_example_wrap free_example_after_wrap)
     (simp add: unaligned_allocator_def unaligned_after_any_def example_allocator_def
       example_after_wrap_def strictly_ordered_def
       no_overlap_def no_adjacent_def in_range_def span_end_def range_end_def align_up_def)

text \<open>
  Where the address that \<open>allocate\<close> returns is a multiple of the granularity and
  nothing wraps around, the round trip of C4 holds. On an allocator with a nonzero
  base that satisfies the invariant of the free list (with a range that ends below
  \<open>2^64\<close>), for every call of \<open>allocate\<close> that returns an address \<open>a\<close> other than the sentinel, where \<open>a\<close> is a multiple of the
  granularity and, for \<open>ALLOCATE_EXACT\<close> and \<open>ALLOCATE_ABOVE\<close>,
  \<open>hint + rounded length < 2^64\<close>: \<open>free(a, rounded length)\<close> returns the allocator as
  it was before the call, the free list and the chain of the pool included.
\<close>

theorem allocate_free_roundtrip:
  assumes inv: "list_inv a"
    and nzb: "r_base a \<noteq> 0"
    and nw: "no_wrap (r_granularity a) (Allocate len flags hint)"
    and res: "allocate a len flags hint = Inr (addr, a')"
    and ok: "addr \<noteq> - 1"
    and al: "unat (r_granularity a) dvd unat addr"
  shows "free a' addr (align_up (r_granularity a) len) = Inr a"
proof -
  define g where "g = r_granularity a"
  define l where "l = align_up g len"
  obtain passed cur rest chain pool where
    app: "free_mem_root a = passed @ cur # rest"
    and chk: "check_span cur l flags hint"
    and s: "split_span cur rest l flags hint (spans a) = Inr (addr, chain, pool)"
    and a': "a' = a\<lparr>free_mem_root := passed @ chain, spans := pool\<rparr>"
    and nz: "l \<noteq> 0"
    using allocate_found[OF inv res ok] unfolding l_def g_def by blast
  have hi: "range_end a < 2 ^ 64" and g0: "g \<noteq> 0"
    and gp: "gapped (unat (r_base a)) (range_end a) (free_mem_root a)"
    using inv by (simp_all add: list_inv_def g_def)
  have nw': "flags = ALLOCATE_ANY \<or> flags = ALLOCATE_BELOW \<or> unat hint + unat l < 2 ^ 64"
    using nw by (simp add: l_def g_def)
  have gc: "gapped (unat (r_base a)) (range_end a) (cur # rest)"
    using gapped_append_tail[of _ _ passed "cur # rest"] gp app by simp
  have cb: "unat (r_base a) \<le> unat (s_base cur)" "span_end cur \<le> range_end a"
    using gc by simp_all
  then have e: "span_end cur < 2 ^ 64" using hi by simp
  have rg: "unat (s_base cur) \<le> unat addr" "unat addr + unat l \<le> span_end cur"
    using split_span_range[OF e chk nw' s] by simp_all
  have nwf: "unat addr + unat l < 2 ^ 64" using rg e by simp
  \<comment> \<open>the roundings of \<open>free\<close> leave the address and the length as they are\<close>
  have "0 < unat (r_base a)" using nzb by (simp add: unat_gt_0)
  then have "0 < unat addr" using cb rg by simp
  then have "unat g \<le> unat addr" using al by (auto simp: g_def dest: dvd_imp_le)
  then have "unat l + unat g \<le> 2 ^ 64" using nwf by simp
  moreover have "unat g dvd unat l" unfolding l_def using g0 by (rule align_up_dvd)
  ultimately have rl: "align_up g l = l" using g0 by (intro align_up_id)
  have rb: "align_down g addr = addr" using al by (intro align_down_id) (simp add: g_def)
  \<comment> \<open>the scan passes the spans before the block and undoes the split\<close>
  have gp': "gapped (unat (r_base a)) (range_end a) (passed @ chain)"
    using allocate_list_inv[OF inv nw res] by (simp add: list_inv_def a' range_end_def)
  have "\<forall>p\<in>set passed. span_end p < unat addr"
  proof
    fix p assume "p \<in> set passed"
    then have "span_end p < unat (s_base cur)"
      using gapped_append_before[of "unat (r_base a)" "range_end a" passed cur rest p] gp app
      by simp
    then show "span_end p < unat addr" using rg by simp
  qed
  then have "free_scan addr l (passed @ chain) pool =
      (case free_scan addr l chain pool of
         Inl e \<Rightarrow> Inl e
       | Inr (chain', pool') \<Rightarrow> Inr (passed @ chain', pool'))"
    using free_scan_skip[OF hi nwf gp'] by simp
  moreover have "free_scan addr l chain pool = Inr (cur # rest, spans a)"
    using split_span_restore[OF hi gc chk nz nw' s] .
  ultimately have fs: "free_scan addr l (passed @ chain) pool = Inr (free_mem_root a, spans a)"
    by (simp add: app)
  \<comment> \<open>the checks of \<open>free\<close> pass\<close>
  have ue: "unat (r_base a + r_length a) = range_end a"
    using hi by (simp add: range_end_def unat_add64)
  have ub: "unat (addr + l) = unat addr + unat l" using nwf by (simp add: unat_add64)
  have "0 < unat l" using nz by (simp add: unat_gt_0)
  then have ck: "\<not> addr < r_base a" "\<not> r_base a + r_length a \<le> addr"
    "\<not> r_base a + r_length a < addr + l"
    using cb rg by (simp_all add: word_le_nat_alt word_less_nat_alt ue ub)
  have cfg: "r_granularity a' = g" "r_base a' = r_base a" "r_length a' = r_length a"
    "free_mem_root a' = passed @ chain" "spans a' = pool"
    by (simp_all add: a' g_def)
  have "free a' addr l = Inr (a'\<lparr>free_mem_root := free_mem_root a, spans := spans a\<rparr>)"
    using g0 nz ck fs by (simp add: free_def cfg rl rb Let_def)
  then show ?thesis by (simp add: a' l_def g_def)
qed

theorem allocate_free_roundtrip_witness:
  "list_inv example_allocator
   \<and> r_base example_allocator \<noteq> 0
   \<and> no_wrap (r_granularity example_allocator) (Allocate 64 ALLOCATE_EXACT 0x1800)
   \<and> allocate example_allocator 64 ALLOCATE_EXACT 0x1800 = Inr (0x1800, example_after_exact)
   \<and> (0x1800 :: vaddr_t) \<noteq> - 1
   \<and> unat (r_granularity example_allocator) dvd unat (0x1800 :: vaddr_t)
   \<and> free example_after_exact 0x1800 (align_up (r_granularity example_allocator) 64)
       = Inr example_allocator"
proof -
  have z: "r_base example_allocator \<noteq> 0" by (simp add: example_config)
  have n: "no_wrap (r_granularity example_allocator) (Allocate 64 ALLOCATE_EXACT 0x1800)"
    by (simp add: example_config align_up_def)
  have k: "(0x1800 :: vaddr_t) \<noteq> - 1" by simp
  have d: "unat (r_granularity example_allocator) dvd unat (0x1800 :: vaddr_t)"
    by (simp add: example_config)
  show ?thesis
    using allocate_free_roundtrip[OF example_list_inv z n allocate_example_exact k d]
      example_list_inv z n allocate_example_exact d
    by simp
qed

text \<open>
  C5, at a call where \<open>base + length\<close> wraps around: on the example allocator
  \<open>free(0x1040, 0xFFFFFFFFFFFFFFC0)\<close> names a range that is not contained in
  \<open>[0x1000, 0x2000)\<close> and overlaps the free span, yet \<open>base + length = 0x1000\<close> passes
  the range check and equals the base of the span, and the span is rewritten to
  \<open>[0x1040, 0x2000)\<close>.
\<close>

theorem free_wrap_changes_list:
  "align_down (r_granularity example_allocator) 0x1040 = 0x1040
   \<and> align_up (r_granularity example_allocator) 0xFFFFFFFFFFFFFFC0 = 0xFFFFFFFFFFFFFFC0
   \<and> \<not> contained example_allocator 0x1040 0xFFFFFFFFFFFFFFC0
   \<and> overlaps_free (free_mem_root example_allocator) 0x1040 0xFFFFFFFFFFFFFFC0
   \<and> free example_allocator 0x1040 0xFFFFFFFFFFFFFFC0 = Inr example_after_any
   \<and> free_mem_root example_after_any \<noteq> free_mem_root example_allocator"
  by (simp add: free_example_wrap)
     (simp add: example_allocator_def example_after_any_def contained_def overlaps_free_def
       range_end_def span_end_def align_up_def align_down_def)

text \<open>
  Where \<open>base + length\<close> does not wrap around, the calls that C5 names change
  nothing. On an allocator that satisfies the invariant of the free list (with a range
  that ends below \<open>2^64\<close>), for every call of \<open>free\<close> with
  \<open>rounded base + rounded length < 2^64\<close>: if the rounded length is zero, or the rounded
  range is not contained in \<open>[base, base + effective_length)\<close>, or it overlaps a span
  of the free list, the call returns the allocator unchanged.
\<close>

theorem free_invalid_noop:
  assumes inv: "list_inv a"
    and nw: "no_wrap (r_granularity a) (Free base len)"
    and bad: "align_up (r_granularity a) len = 0
              \<or> \<not> contained a (align_down (r_granularity a) base)
                      (align_up (r_granularity a) len)
              \<or> overlaps_free (free_mem_root a) (align_down (r_granularity a) base)
                   (align_up (r_granularity a) len)"
  shows "free a base len = Inr a"
proof -
  define b where "b = align_down (r_granularity a) base"
  define l where "l = align_up (r_granularity a) len"
  have hi: "range_end a < 2 ^ 64" and g: "r_granularity a \<noteq> 0"
    and gp: "gapped (unat (r_base a)) (range_end a) (free_mem_root a)"
    using inv by (simp_all add: list_inv_def)
  have nw': "unat b + unat l < 2 ^ 64" using nw by (simp add: b_def l_def)
  have ue: "unat (r_base a + r_length a) = range_end a"
    using hi by (simp add: range_end_def unat_add64)
  have ub: "unat (b + l) = unat b + unat l" using nw' by (simp add: unat_add64)
  show ?thesis
  proof (cases "l = 0 \<or> b < r_base a \<or> b \<ge> r_base a + r_length a \<or> b + l > r_base a + r_length a")
    case True
    then show ?thesis using g
      by (auto simp: free_def Let_def l_def b_def)
  next
    case False
    then have c: "unat (r_base a) \<le> unat b" "0 < unat l" "unat b + unat l \<le> range_end a"
      by (simp_all add: w2n ue ub unat_gt_0 not_less not_le)
    then have "overlaps_free (free_mem_root a) b l"
      using bad False by (auto simp: contained_def b_def l_def)
    then have "\<exists>s\<in>set (free_mem_root a). unat b < span_end s \<and> unat (s_base s) < unat b + unat l"
      by (simp add: overlaps_free_def list_ex_iff)
    then have "free_scan b l (free_mem_root a) (spans a) = Inr (free_mem_root a, spans a)"
      using free_scan_overlap[OF hi gp c(2,3)] by simp
    then show ?thesis using False g
      by (simp add: free_def Let_def l_def[symmetric] b_def[symmetric])
  qed
qed

theorem free_invalid_noop_witness:
  "list_inv example_allocator
   \<and> no_wrap (r_granularity example_allocator) (Free 0x1000 64)
   \<and> overlaps_free (free_mem_root example_allocator)
        (align_down (r_granularity example_allocator) 0x1000)
        (align_up (r_granularity example_allocator) 64)
   \<and> free example_allocator 0x1000 64 = Inr example_allocator"
proof -
  have n: "no_wrap (r_granularity example_allocator) (Free 0x1000 64)"
    by (simp add: example_config align_up_def align_down_def)
  have o: "overlaps_free (free_mem_root example_allocator)
        (align_down (r_granularity example_allocator) 0x1000)
        (align_up (r_granularity example_allocator) 64)"
    by (simp add: example_allocator_def overlaps_free_def span_end_def align_up_def
        align_down_def)
  show ?thesis
    using free_invalid_noop[OF example_list_inv n, of ] example_list_inv n o by simp
qed

text \<open>
  C6, as stated, fails at construction: the constructor keeps a base that is not a
  multiple of the granularity (the code that would round it is commented out), so the
  initial span starts at \<open>0x1001\<close>. It fails after \<open>allocate(64, ALLOCATE_EXACT,
  0x1820)\<close> on the example allocator, which cuts the span at the hint as it is given.
  And it fails where \<open>hint + length\<close> wraps around: with base 3, length 12 and
  granularity 3, \<open>allocate(3, ALLOCATE_EXACT, 0xFFFFFFFFFFFFFFFF)\<close> leaves a span at
  address 2.
\<close>

theorem unaligned_base_unaligned_span:
  "create_range_allocator 0x1001 4096 64 = Inr (Some unaligned_allocator)
   \<and> \<not> aligned_spans 64 (free_mem_root unaligned_allocator)
   \<and> create_range_allocator 0x1000 4096 64 = Inr (Some example_allocator)
   \<and> allocate example_allocator 64 ALLOCATE_EXACT 0x1820
       = Inr (0x1820, example_after_unaligned_exact)
   \<and> \<not> aligned_spans 64 (free_mem_root example_after_unaligned_exact)
   \<and> create_range_allocator 3 12 3 = Inr (Some thirds_allocator)
   \<and> unat (3 :: size_t) dvd unat (0xFFFFFFFFFFFFFFFF :: vaddr_t)
   \<and> allocate thirds_allocator 3 ALLOCATE_EXACT 0xFFFFFFFFFFFFFFFF
       = Inr (0xFFFFFFFFFFFFFFFF, thirds_after_wrap)
   \<and> \<not> aligned_spans 3 (free_mem_root thirds_after_wrap)"
  by (simp add: create_unaligned create_example allocate_example_unaligned_exact
       create_thirds allocate_thirds_wrap)
     (simp add: unaligned_allocator_def example_after_unaligned_exact_def
       thirds_after_wrap_def aligned_spans_def)

text \<open>
  C6, amended. After a successful construction with a base that is a multiple of the
  granularity and a range that ends below \<open>2^64\<close>, and after every call of a sequence
  of calls that returns, in which no call wraps around and every hint of
  \<open>ALLOCATE_EXACT\<close> is a multiple of the granularity, every span of the free list has a
  base that is a multiple of the granularity and a length that is a positive multiple
  of it.
\<close>

theorem spans_aligned:
  assumes "create_range_allocator base len g = Inr (Some a0)"
    and "unat g dvd unat base"
    and "range_end a0 < 2 ^ 64"
    and "list_all (no_wrap g) calls"
    and "list_all (hint_aligned g) calls"
    and "run a0 calls = Inr a"
  shows "aligned_spans g (free_mem_root a)"
proof -
  have i0: "list_inv a0" using assms(1,3) by (rule create_list_inv)
  have g: "r_granularity a0 = g" using assms(1) by (rule create_fields)
  have al: "aligned_spans (r_granularity a0) (free_mem_root a0)"
    using create_aligned[OF assms(1,2)] g by simp
  show ?thesis
    using run_aligned[OF i0 al _ _ assms(6)] assms(4,5) g by simp
qed

theorem spans_aligned_witness:
  "create_range_allocator 0x1000 4096 64 = Inr (Some example_allocator)
   \<and> unat (64 :: size_t) dvd unat (0x1000 :: vaddr_t)
   \<and> range_end example_allocator < 2 ^ 64
   \<and> list_all (no_wrap 64) [Allocate 64 ALLOCATE_EXACT 0x1800]
   \<and> list_all (hint_aligned 64) [Allocate 64 ALLOCATE_EXACT 0x1800]
   \<and> run example_allocator [Allocate 64 ALLOCATE_EXACT 0x1800] = Inr example_after_exact
   \<and> aligned_spans 64 (free_mem_root example_after_exact)"
proof -
  have c: "create_range_allocator 0x1000 4096 64 = Inr (Some example_allocator)"
    by (rule create_example)
  have d: "unat (64 :: size_t) dvd unat (0x1000 :: vaddr_t)" by simp
  have e: "range_end example_allocator < 2 ^ 64"
    by (simp add: range_end_def example_config)
  have n: "list_all (no_wrap 64) [Allocate 64 ALLOCATE_EXACT 0x1800]"
    by (simp add: align_up_def)
  have h: "list_all (hint_aligned 64) [Allocate 64 ALLOCATE_EXACT 0x1800]"
    by simp
  have r: "run example_allocator [Allocate 64 ALLOCATE_EXACT 0x1800] = Inr example_after_exact"
    by (simp add: allocate_example_exact)
  show ?thesis using spans_aligned[OF c d e n h r] c d e n h r by simp
qed

text \<open>
  C7, at a range of one granule. \<open>create_range_allocator(0x1000, 64, 64)\<close> passes the
  four checks (\<open>granularity > length\<close> is false) and constructs the pool with
  \<open>(64 / 64) / 2 = 0\<close> records: the constructor of \<open>span_manager_pool\<close> then writes
  outside its empty vector, so construction does not succeed.
\<close>

theorem create_one_granule_out_of_bounds:
  "create_range_allocator 0x1000 64 64 = Inl PoolOutOfBounds"
  by (simp add: create_range_allocator_def range_allocator_init_def span_manager_pool_def)

text \<open>
  C8. In every call, \<open>allocate\<close> works with the length rounded by
  \<open>((length + g - 1) / g) * g\<close> in arithmetic modulo \<open>2^64\<close>; where the sum does not
  wrap around this is the least multiple of the granularity that is not below the
  length. Whenever the rounded length is zero or exceeds the effective length, or the
  requested length exceeds it, \<open>allocate\<close> returns the all-ones sentinel and the
  allocator as it was, whatever the free list holds. Otherwise it searches the free
  list and splits the span it finds with the rounded length, not with the requested
  one. On an allocator that satisfies the invariant of the free list, a call that
  does not wrap around and returns an address takes a block of exactly the rounded
  length out of a free span: the number of free bytes drops by the rounded length.
\<close>

theorem allocate_rounds_then_rejects:
  assumes "r_granularity a \<noteq> 0"
  shows "unat (align_up (r_granularity a) len)
           = (unat len + unat (r_granularity a) - 1) mod 2 ^ 64
               div unat (r_granularity a) * unat (r_granularity a)
         \<and> (unat len + unat (r_granularity a) - 1 < 2 ^ 64 \<longrightarrow>
              unat (r_granularity a) dvd unat (align_up (r_granularity a) len)
              \<and> unat len \<le> unat (align_up (r_granularity a) len)
              \<and> unat (align_up (r_granularity a) len) < unat len + unat (r_granularity a))
         \<and> (align_up (r_granularity a) len = 0
              \<or> r_length a < align_up (r_granularity a) len
              \<or> r_length a < len \<longrightarrow>
              allocate a len flags hint = Inr (- 1, a))
         \<and> allocate a len flags hint =
             (if align_up (r_granularity a) len = 0
                 \<or> r_length a < align_up (r_granularity a) len
              then Inr (- 1, a)
              else case find_span (free_mem_root a) (align_up (r_granularity a) len)
                          flags hint of
                (passed, []) \<Rightarrow> Inr (- 1, a)
              | (passed, cur # rest) \<Rightarrow>
                  (case split_span cur rest (align_up (r_granularity a) len) flags hint
                          (spans a) of
                     Inl e \<Rightarrow> Inl e
                   | Inr (base, chain, pool) \<Rightarrow>
                       Inr (base, a\<lparr>free_mem_root := passed @ chain, spans := pool\<rparr>)))
         \<and> (list_inv a \<and> no_wrap (r_granularity a) (Allocate len flags hint)
              \<and> allocate a len flags hint = Inr (addr, a') \<and> addr \<noteq> - 1 \<longrightarrow>
              was_free (free_mem_root a) addr (align_up (r_granularity a) len)
              \<and> free_total (free_mem_root a') + unat (align_up (r_granularity a) len)
                  = free_total (free_mem_root a))"
proof (intro conjI impI)
  show "unat (align_up (r_granularity a) len)
          = (unat len + unat (r_granularity a) - 1) mod 2 ^ 64
              div unat (r_granularity a) * unat (r_granularity a)"
    using assms by (rule unat_align_up)
next
  show "unat (r_granularity a) dvd unat (align_up (r_granularity a) len)"
    using assms by (rule align_up_dvd)
next
  assume "unat len + unat (r_granularity a) - 1 < 2 ^ 64"
  then show "unat len \<le> unat (align_up (r_granularity a) len)"
    by (rule align_up_ge[OF assms])
next
  assume "unat len + unat (r_granularity a) - 1 < 2 ^ 64"
  then show "unat (align_up (r_granularity a) len) < unat len + unat (r_granularity a)"
    by (rule align_up_less[OF assms])
next
  assume "align_up (r_granularity a) len = 0
          \<or> r_length a < align_up (r_granularity a) len \<or> r_length a < len"
  then show "allocate a len flags hint = Inr (- 1, a)"
    using assms by (simp add: allocate_rejects)
next
  show "allocate a len flags hint =
     (if align_up (r_granularity a) len = 0 \<or> r_length a < align_up (r_granularity a) len
      then Inr (- 1, a)
      else case find_span (free_mem_root a) (align_up (r_granularity a) len) flags hint of
        (passed, []) \<Rightarrow> Inr (- 1, a)
      | (passed, cur # rest) \<Rightarrow>
          (case split_span cur rest (align_up (r_granularity a) len) flags hint (spans a) of
             Inl e \<Rightarrow> Inl e
           | Inr (base, chain, pool) \<Rightarrow>
               Inr (base, a\<lparr>free_mem_root := passed @ chain, spans := pool\<rparr>)))"
    using assms by (rule allocate_with_rounded)
next
  assume h: "list_inv a \<and> no_wrap (r_granularity a) (Allocate len flags hint)
              \<and> allocate a len flags hint = Inr (addr, a') \<and> addr \<noteq> - 1"
  then show "was_free (free_mem_root a) addr (align_up (r_granularity a) len)"
    using allocate_takes_rounded[of a len flags hint addr a'] by blast
  from h show "free_total (free_mem_root a') + unat (align_up (r_granularity a) len)
                  = free_total (free_mem_root a)"
    using allocate_takes_rounded[of a len flags hint addr a'] by blast
qed

theorem allocate_rounds_then_rejects_witness:
  "r_granularity example_allocator \<noteq> 0
   \<and> unat (4097 :: size_t) + unat (r_granularity example_allocator) - 1 < 2 ^ 64
   \<and> r_length example_allocator < 4097
   \<and> unat (align_up (r_granularity example_allocator) 4097) = 4160
   \<and> allocate example_allocator 4097 ALLOCATE_ANY 0 = Inr (- 1, example_allocator)
   \<and> list_inv example_allocator
   \<and> no_wrap (r_granularity example_allocator) (Allocate 1 ALLOCATE_ANY 0)
   \<and> allocate example_allocator 1 ALLOCATE_ANY 0 = Inr (0x1000, example_after_any)
   \<and> (0x1000 :: vaddr_t) \<noteq> - 1
   \<and> unat (align_up (r_granularity example_allocator) 1) = 64
   \<and> was_free (free_mem_root example_allocator) 0x1000
        (align_up (r_granularity example_allocator) 1)
   \<and> free_total (free_mem_root example_after_any) + 64
       = free_total (free_mem_root example_allocator)"
proof -
  have g: "r_granularity example_allocator \<noteq> 0" by (simp add: example_config)
  have n: "no_wrap (r_granularity example_allocator) (Allocate 1 ALLOCATE_ANY 0)" by simp
  have k: "(0x1000 :: vaddr_t) \<noteq> - 1" by simp
  have u: "unat (align_up (r_granularity example_allocator) 1) = 64"
    by (simp add: example_config align_up_def)
  show ?thesis
    using allocate_rounds_then_rejects[OF g, of 4097 ALLOCATE_ANY 0]
      allocate_rounds_then_rejects[OF g, of 1 ALLOCATE_ANY 0 "0x1000" example_after_any]
      g n k u example_list_inv allocate_example_one
    by (simp add: example_config)
qed

text \<open>
  C9. When the scan of \<open>free\<close> stands at a span \<open>next\<close> whose base is below the base
  of the span \<open>next.next\<close> behind it, with \<open>base == next.base + next.length\<close> and
  \<open>base + length == next.next.base\<close>, it leaves the single span \<open>next\<close> with its
  length increased by \<open>length + next.next.length\<close>, unlinks \<open>next.next\<close> and releases
  its record to the pool. On an allocator that satisfies the invariant of the free
  list, a call of \<open>free\<close> whose rounded range meets the two equations at consecutive
  spans of the list reaches that point of the scan and returns the allocator with
  exactly this change.
\<close>

theorem free_three_way_merge:
  "(s_base n1 < s_base n2 \<and> b = s_base n1 + s_length n1 \<and> b + l = s_base n2 \<longrightarrow>
      free_scan b l (n1 # n2 # post) pool =
        Inr (n1\<lparr>s_length := s_length n1 + (l + s_length n2)\<rparr> # post,
             release pool (s_node n2)))
   \<and> (list_inv a \<and> free_mem_root a = pre @ n1 # n2 # post
       \<and> align_down (r_granularity a) base = s_base n1 + s_length n1
       \<and> align_down (r_granularity a) base + align_up (r_granularity a) len = s_base n2 \<longrightarrow>
      free a base len =
        Inr (a\<lparr>free_mem_root :=
                  pre @ n1\<lparr>s_length := s_length n1
                               + (align_up (r_granularity a) len + s_length n2)\<rparr> # post,
               spans := release (spans a) (s_node n2)\<rparr>))"
  using free_scan_merge_step[of n1 n2 b l post pool]
    free_merges_neighbours[of a pre n1 n2 post base len]
  by blast

theorem free_three_way_merge_witness:
  "list_inv example_after_exact
   \<and> free_mem_root example_after_exact
       = [] @ \<lparr>s_node = 0, s_base = 0x1000, s_length = 2048\<rparr>
            # \<lparr>s_node = 1, s_base = 0x1840, s_length = 1984\<rparr> # []
   \<and> (0x1000 :: vaddr_t) < 0x1840
   \<and> align_down (r_granularity example_after_exact) 0x1800 = 0x1000 + 2048
   \<and> align_down (r_granularity example_after_exact) 0x1800
       + align_up (r_granularity example_after_exact) 64 = 0x1840
   \<and> free_scan 0x1800 64 (free_mem_root example_after_exact) (spans example_after_exact)
       = Inr ([\<lparr>s_node = 0, s_base = 0x1000, s_length = 4096\<rparr>],
              1 # spans example_after_exact)
   \<and> free example_after_exact 0x1800 64
       = Inr (example_after_exact
               \<lparr>free_mem_root := [\<lparr>s_node = 0, s_base = 0x1000, s_length = 4096\<rparr>],
                spans := 1 # spans example_after_exact\<rparr>)"
proof -
  have l: "free_mem_root example_after_exact
       = [] @ \<lparr>s_node = 0, s_base = 0x1000, s_length = 2048\<rparr>
            # \<lparr>s_node = 1, s_base = 0x1840, s_length = 1984\<rparr> # []"
    by (simp add: example_after_exact_def)
  have g: "r_granularity example_after_exact = 64" by (simp add: example_after_exact_def)
  have b1: "align_down (r_granularity example_after_exact) 0x1800
            = s_base \<lparr>s_node = 0, s_base = 0x1000, s_length = 2048\<rparr>
              + s_length \<lparr>s_node = 0, s_base = 0x1000, s_length = 2048\<rparr>"
    by (simp add: g align_down_def)
  have b2: "align_down (r_granularity example_after_exact) 0x1800
              + align_up (r_granularity example_after_exact) 64
            = s_base \<lparr>s_node = 1, s_base = 0x1840, s_length = 1984\<rparr>"
    by (simp add: g align_down_def align_up_def)
  show ?thesis
    using free_three_way_merge[of "\<lparr>s_node = 0, s_base = 0x1000, s_length = 2048\<rparr>"
        "\<lparr>s_node = 1, s_base = 0x1840, s_length = 1984\<rparr>" "0x1800" 64 "[]"
        "spans example_after_exact" example_after_exact "[]" "0x1800" 64]
      l b1 b2 example_after_exact_list_inv
    by (simp add: g align_up_def align_down_def release_def)
qed

text \<open>
  C10. A call of \<open>allocate\<close> or \<open>free\<close> that returns leaves the base, the effective
  length and the granularity of the allocator as they were.
\<close>

theorem config_unchanged:
  "(allocate a len flags hint = Inr (addr, a') \<longrightarrow>
      r_base a' = r_base a \<and> r_length a' = r_length a
      \<and> r_granularity a' = r_granularity a)
   \<and> (free a base len' = Inr a'' \<longrightarrow>
      r_base a'' = r_base a \<and> r_length a'' = r_length a
      \<and> r_granularity a'' = r_granularity a)"
  by (auto simp: allocate_def free_def Let_def
      split: if_splits prod.splits list.splits sum.splits)

theorem config_unchanged_witness:
  "allocate example_allocator 64 ALLOCATE_ANY 0 = Inr (0x1000, example_after_any)
   \<and> free example_after_any 0x1000 64 = Inr example_allocator
   \<and> r_base example_after_any = r_base example_allocator
   \<and> r_length example_after_any = r_length example_allocator
   \<and> r_granularity example_after_any = r_granularity example_allocator"
  using config_unchanged[of example_allocator 64 ALLOCATE_ANY 0 "0x1000" example_after_any
      "0x1000" 64 example_allocator]
    config_unchanged[of example_after_any 64 ALLOCATE_ANY 0 "0x1000" example_after_any
      "0x1000" 64 example_allocator]
  by (simp add: allocate_example_any free_example_any free_example_overlap)

end
